theory Spec2Isabelle
  imports Main "HOL-Library.Word"
begin

unbundle bit_operations_syntax

chapter \<open>The embedding\<close>

section \<open>JavaScript numbers and values\<close>

text \<open>
  The library computes with JavaScript numbers. Every integer the algorithms handle is
  modelled as an \<open>int\<close>; the bitwise operators first convert their operands to 32 bits
  (\<open>ToInt32\<close>, \<open>ToUint32\<close>), and that wrap-around is written out here. Shift counts are
  taken modulo 32, as the language prescribes.
\<close>

definition js_toInt32 :: "int \<Rightarrow> int" where
  "js_toInt32 x = (x + 2 ^ 31) mod 2 ^ 32 - 2 ^ 31"

definition js_toUint32 :: "int \<Rightarrow> int" where
  "js_toUint32 x = x mod 2 ^ 32"

text \<open>\<open>a & b\<close>\<close>

definition js_and :: "int \<Rightarrow> int \<Rightarrow> int" where
  "js_and a b = js_toInt32 (a AND b)"

text \<open>\<open>a << k\<close>\<close>

definition js_shl :: "int \<Rightarrow> nat \<Rightarrow> int" where
  "js_shl a k = js_toInt32 (a * 2 ^ (k mod 32))"

text \<open>\<open>a >> k\<close>\<close>

definition js_sar :: "int \<Rightarrow> nat \<Rightarrow> int" where
  "js_sar a k = js_toInt32 a div 2 ^ (k mod 32)"

text \<open>\<open>a >>> k\<close>\<close>

definition js_shr :: "int \<Rightarrow> nat \<Rightarrow> int" where
  "js_shr a k = js_toUint32 a div 2 ^ (k mod 32)"

lemmas js_defs = js_and_def js_shl_def js_sar_def js_shr_def js_toInt32_def js_toUint32_def

text \<open>
  A \<open>Buffer\<close> is a list of bytes. A JavaScript value that should be a buffer but may be
  \<open>undefined\<close> (an array read out of range) or \<open>null\<close> (a slot of \<open>Array(n).fill(null)\<close>
  never written) is a \<open>buffer option\<close>; both are \<open>None\<close>, since the code under study
  never tells them apart: it either stores such a value or hands it to a buffer
  operation, which throws a \<open>TypeError\<close>.
\<close>

type_synonym buffer = "8 word list"
type_synonym jsval = "buffer option"

datatype error = AssertionError | TypeError | RangeError

text \<open>Reading \<open>xs[i]\<close>: \<open>undefined\<close> outside the array.\<close>

definition js_nth :: "'a option list \<Rightarrow> nat \<Rightarrow> 'a option" where
  "js_nth xs i = (if i < length xs then xs ! i else None)"

definition js_nth_int :: "'a option list \<Rightarrow> int \<Rightarrow> 'a option" where
  "js_nth_int xs i = (if 0 \<le> i then js_nth xs (nat i) else None)"

text \<open>
  Writing \<open>xs[i] = v\<close> at a non-negative index: past the end the array grows, the holes
  reading as \<open>undefined\<close>.
\<close>

definition js_set :: "'a option list \<Rightarrow> nat \<Rightarrow> 'a option \<Rightarrow> 'a option list" where
  "js_set xs i v =
     (if i < length xs then xs[i := v] else xs @ replicate (i - length xs) None @ [v])"

text \<open>
  Writing at an integer index that may be negative: a negative index names a property
  of the array object, not an element, and no later read of an element sees it.
\<close>

definition js_set_int :: "'a option list \<Rightarrow> int \<Rightarrow> 'a option \<Rightarrow> 'a option list" where
  "js_set_int xs i v = (if 0 \<le> i then js_set xs (nat i) v else xs)"

text \<open>The same for an array of booleans; a hole or a read out of range is falsy.\<close>

definition js_truthy_at :: "bool list \<Rightarrow> int \<Rightarrow> bool" where
  "js_truthy_at xs i = (0 \<le> i \<and> nat i < length xs \<and> xs ! nat i)"

definition js_set_bool :: "bool list \<Rightarrow> int \<Rightarrow> bool \<Rightarrow> bool list" where
  "js_set_bool xs i v =
     (if i < 0 then xs
      else if nat i < length xs then xs[nat i := v]
      else xs @ replicate (nat i - length xs) False @ [v])"

section \<open>Bit and byte utilities (\<open>utils/index.js\<close>)\<close>

text \<open>
  \<^verbatim>\<open>
  const leftPad = (num, size, char = '0') => {
    let s = num + '';
    while (s.length < size) s = char + s;
    return s;
  };
  \<close>
\<close>

function leftPad :: "string \<Rightarrow> nat \<Rightarrow> char \<Rightarrow> string" where
  "leftPad s sz c = (if length s < sz then leftPad (c # s) sz c else s)"
  by pat_completeness auto
termination
  by (relation "measure (\<lambda>(s, sz, c). sz - length s)") auto

declare leftPad.simps [simp del]

text \<open>
  \<open>number.toString(16)\<close> of an integer: lower-case hexadecimal digits, most significant
  first, with a leading minus sign for a negative number.
\<close>

definition hexDigit :: "nat \<Rightarrow> char" where
  "hexDigit d = (if d < 10 then char_of (48 + d) else char_of (87 + d))"

fun toHex :: "nat \<Rightarrow> string" where
  "toHex n = (if n < 16 then [hexDigit n] else toHex (n div 16) @ [hexDigit (n mod 16)])"

declare toHex.simps [simp del]

definition toString16 :: "int \<Rightarrow> string" where
  "toString16 n = (if n < 0 then CHR ''-'' # toHex (nat (- n)) else toHex (nat n))"

text \<open>
  \<open>Buffer.from(string, 'hex')\<close> decodes two characters to a byte and stops at the first
  pair that is not two hexadecimal digits; a trailing single character is dropped.
\<close>

definition unhex :: "char \<Rightarrow> nat option" where
  "unhex c =
     (let k = (of_char c :: nat)
      in if 48 \<le> k \<and> k \<le> 57 then Some (k - 48)
         else if 97 \<le> k \<and> k \<le> 102 then Some (k - 87)
         else if 65 \<le> k \<and> k \<le> 70 then Some (k - 55)
         else None)"

fun hexDecode :: "string \<Rightarrow> buffer" where
  "hexDecode (a # b # rest) =
     (case (unhex a, unhex b) of
        (Some x, Some y) \<Rightarrow> of_nat (16 * x + y) # hexDecode rest
      | _ \<Rightarrow> [])"
| "hexDecode _ = []"

text \<open>
  \<^verbatim>\<open>
  const to32ByteBuffer = (number) => {
    return Buffer.from(leftPad(number.toString(16), 64), 'hex');
  };
  \<close>
\<close>

definition to32ByteBuffer :: "int \<Rightarrow> buffer" where
  "to32ByteBuffer number = hexDecode (leftPad (toString16 number) 64 CHR ''0'')"

text \<open>The integer a buffer encodes when read big-endian.\<close>

definition bigEndian :: "buffer \<Rightarrow> nat" where
  "bigEndian bs = foldl (\<lambda>acc b. 256 * acc + unat b) 0 bs"

text \<open>
  \<^verbatim>\<open>
  const bitCount32 = (n) => {
    let m = n - ((n >> 1) & 0x55555555);
    m = (m & 0x33333333) + ((m >> 2) & 0x33333333);
    return (((m + (m >> 4)) & 0xf0f0f0f) * 0x1010101) >> 24;
  };
  \<close>
\<close>

definition bitCount32 :: "int \<Rightarrow> int" where
  "bitCount32 n =
     (let m = n - js_and (js_sar n 1) 0x55555555;
          m = js_and m 0x33333333 + js_and (js_sar m 2) 0x33333333
      in js_sar (js_and (m + js_sar m 4) 0xf0f0f0f * 0x1010101) 24)"

text \<open>
  \<^verbatim>\<open>
  const hashNode = (leftHash, rightHash) => {
    const hash = new Keccak(256);
    return hash.update(Buffer.concat([leftHash, rightHash])).digest();
  };
  \<close>
  The digest \<open>keccak\<close> is a parameter. \<open>Buffer.concat\<close> throws a \<open>TypeError\<close> on an
  element that is not a buffer.
\<close>

definition hashNode :: "(buffer \<Rightarrow> buffer) \<Rightarrow> jsval \<Rightarrow> jsval \<Rightarrow> error + buffer" where
  "hashNode keccak leftHash rightHash =
     (case (leftHash, rightHash) of
        (Some l, Some r) \<Rightarrow> Inr (keccak (l @ r))
      | _ \<Rightarrow> Inl TypeError)"

text \<open>\<open>a.equals(b)\<close> on buffers; a \<open>TypeError\<close> when either is not one.\<close>

definition buffer_equals :: "jsval \<Rightarrow> jsval \<Rightarrow> error + bool" where
  "buffer_equals a b =
     (case (a, b) of (Some x, Some y) \<Rightarrow> Inr (x = y) | _ \<Rightarrow> Inl TypeError)"

section \<open>The minimum index of a combined proof\<close>

text \<open>
  \<^verbatim>\<open>
  const getMinimumIndex = (elementCount) => {
    for (let shifts = 0; shifts < 32; shifts++) {
      if (elementCount & 1) return (elementCount & 0xfffffffe) << shifts;
      elementCount >>>= 1;
    }
  };
  \<close>
  Falling out of the loop returns \<open>undefined\<close>: the result is an \<open>int option\<close>.
\<close>

function getMinimumIndex_from :: "nat \<Rightarrow> int \<Rightarrow> int option" where
  "getMinimumIndex_from shifts elementCount =
     (if shifts < 32 then
        (if js_and elementCount 1 \<noteq> 0
         then Some (js_shl (js_and elementCount 0xfffffffe) shifts)
         else getMinimumIndex_from (Suc shifts) (js_shr elementCount 1))
      else None)"
  by pat_completeness auto
termination
  by (relation "measure (\<lambda>(shifts, elementCount). 32 - shifts)") auto

declare getMinimumIndex_from.simps [simp del]

definition getMinimumIndex :: "int \<Rightarrow> int option" where
  "getMinimumIndex elementCount = getMinimumIndex_from 0 elementCount"

section \<open>Balanced-tree multi-proofs (\<open>multi-proof.js\<close>)\<close>

text \<open>
  Modelled from the spec: \<open>getDepthFromTree\<close> and \<open>validateMixedRoot\<close> are imported from
  \<open>./common\<close>, which is not among the sources. The spec has the tree as a level-order
  array of size \<open>2 * leafCount\<close> with \<open>leafCount = 2^depth\<close>, so the depth is the binary
  logarithm of the array's length, less one; and it has the mixed root as
  \<open>hashNode(encode32(leafCount), root)\<close>, which \<open>validateMixedRoot\<close> recomputes and
  compares.
\<close>

fun log2floor :: "nat \<Rightarrow> nat" where
  "log2floor n = (if n < 2 then 0 else Suc (log2floor (n div 2)))"

declare log2floor.simps [simp del]

definition getDepthFromTree :: "jsval list \<Rightarrow> nat" where
  "getDepthFromTree tree = log2floor (length tree) - 1"

definition validateMixedRoot ::
  "(buffer \<Rightarrow> buffer) \<Rightarrow> jsval \<Rightarrow> jsval \<Rightarrow> int \<Rightarrow> error + bool" where
  "validateMixedRoot keccak mixedRoot root leafCount =
     (case hashNode keccak (Some (to32ByteBuffer leafCount)) root of
        Inl e \<Rightarrow> Inl e
      | Inr h \<Rightarrow> buffer_equals (Some h) mixedRoot)"

record multiProof =
  mp_mixedRoot :: jsval
  mp_root :: jsval
  mp_leafCount :: int
  mp_indices :: "int list"
  mp_values :: "jsval list"
  mp_decommitments :: "jsval list"

text \<open>
  \<^verbatim>\<open>
  for (let i = 0; i < indices.length; i++) {
    assert(i === 0 || indices[i - 1] > indices[i], 'indices must be in descending order');
    known[(1 << depth) + indices[i]] = true;
    values.push(tree[(1 << depth) + indices[i]]);
  }
  \<close>
\<close>

function generate_mark ::
  "jsval list \<Rightarrow> nat \<Rightarrow> int list \<Rightarrow> nat \<Rightarrow> bool list \<Rightarrow> jsval list
     \<Rightarrow> error + bool list \<times> jsval list" where
  "generate_mark tree depth indices i known vals =
     (if i < length indices then
        (if i = 0 \<or> indices ! (i - 1) > indices ! i then
           generate_mark tree depth indices (Suc i)
             (js_set_bool known (js_shl 1 depth + indices ! i) True)
             (vals @ [js_nth_int tree (js_shl 1 depth + indices ! i)])
         else Inl AssertionError)
      else Inr (known, vals))"
  by pat_completeness auto
termination
  by (relation "measure (\<lambda>(tree, depth, indices, i, known, vals). length indices - i)") auto

declare generate_mark.simps [simp del]

text \<open>
  \<^verbatim>\<open>
  for (let i = (1 << depth) - 1; i > 0; i--) {
    const left = known[2 * i];
    const right = known[2 * i + 1];
    if (left && !right) decommitments.push(tree[2 * i + 1]);
    if (right && !left) decommitments.push(tree[2 * i]);
    known[i] = left || right;
  }
  \<close>
\<close>

function generate_walk ::
  "jsval list \<Rightarrow> int \<Rightarrow> bool list \<Rightarrow> jsval list \<Rightarrow> bool list \<times> jsval list" where
  "generate_walk tree i known decommitments =
     (if 0 < i then
        (let left = js_truthy_at known (2 * i);
             right = js_truthy_at known (2 * i + 1);
             decommitments = (if left \<and> \<not> right
                              then decommitments @ [js_nth_int tree (2 * i + 1)]
                              else decommitments);
             decommitments = (if right \<and> \<not> left
                              then decommitments @ [js_nth_int tree (2 * i)]
                              else decommitments)
         in generate_walk tree (i - 1) (js_set_bool known i (left \<or> right)) decommitments)
      else (known, decommitments))"
  by pat_completeness auto
termination
  by (relation "measure (\<lambda>(tree, i, known, decommitments). nat i)") auto

declare generate_walk.simps [simp del]

text \<open>
  \<^verbatim>\<open>
  const generateMultiProof = (tree, indices) => {
    const depth = getDepthFromTree(tree);
    const leafCount = 1 << depth;
    const nodeCount = 2 * leafCount;
    const known = Array(nodeCount).fill(false);
    const values = [];
    const decommitments = [];
    ...
    return { mixedRoot: tree[0], root: tree[1], leafCount, indices, values, decommitments };
  };
  \<close>
  \<open>Array(n)\<close> throws a \<open>RangeError\<close> for a negative \<open>n\<close>.
\<close>

definition generateMultiProof :: "jsval list \<Rightarrow> int list \<Rightarrow> error + multiProof" where
  "generateMultiProof tree indices =
     (let depth = getDepthFromTree tree;
          leafCount = js_shl 1 depth;
          nodeCount = 2 * leafCount
      in if nodeCount < 0 then Inl RangeError
         else
           (case generate_mark tree depth indices 0 (replicate (nat nodeCount) False) [] of
              Inl e \<Rightarrow> Inl e
            | Inr (known, vals) \<Rightarrow>
                (let (known', decommitments) = generate_walk tree (js_shl 1 depth - 1) known []
                 in Inr \<lparr> mp_mixedRoot = js_nth tree 0, mp_root = js_nth tree 1,
                          mp_leafCount = leafCount, mp_indices = indices,
                          mp_values = vals, mp_decommitments = decommitments \<rparr>)))"

text \<open>
  \<^verbatim>\<open>
  const queue = [];
  values.forEach((value, i) => {
    queue.push({ index: leafCount + indices[i], value });
  });
  \<close>
  A queue entry is the pair of its tree index and its value. Where \<open>indices\<close> is shorter
  than \<open>values\<close>, \<open>indices[i]\<close> is \<open>undefined\<close> and the sum is \<open>NaN\<close>: the index is an
  \<open>int option\<close> with \<open>None\<close> for \<open>NaN\<close>.
\<close>

definition verify_queue :: "int \<Rightarrow> int list \<Rightarrow> jsval list \<Rightarrow> (int option \<times> jsval) list" where
  "verify_queue leafCount indices vals =
     map (\<lambda>i. (if i < length indices then Some (leafCount + indices ! i) else None, vals ! i))
       [0 ..< length vals]"

text \<open>\<open>index >> 1\<close>, which is 0 for \<open>NaN\<close>.\<close>

definition index_halved :: "int option \<Rightarrow> int option" where
  "index_halved index = (case index of Some i \<Rightarrow> Some (js_sar i 1) | None \<Rightarrow> Some 0)"

text \<open>\<open>xs.shift()\<close>: the first element and the rest; \<open>undefined\<close> from an empty array.\<close>

definition js_shift :: "'a option list \<Rightarrow> 'a option \<times> 'a option list" where
  "js_shift xs = (case xs of [] \<Rightarrow> (None, []) | x # xs' \<Rightarrow> (x, xs'))"

text \<open>
  \<^verbatim>\<open>
  while (true) {
    assert(queue.length >= 1, 'Something went wrong.');
    const { index, value } = queue.shift();
    if (index === 1) {
      return value.equals(root);
    } else if (index % 2 === 0) {
      queue.push({ index: index >> 1, value: hashNode(value, decommits.shift()) });
    } else if (queue.length > 0 && queue[0].index === index - 1) {
      queue.push({ index: index >> 1, value: hashNode(queue.shift().value, value) });
    } else {
      queue.push({ index: index >> 1, value: hashNode(decommits.shift(), value) });
    }
  }
  \<close>
  \<open>verify_merge\<close> is the three merging branches, applied to the entry just taken off
  the queue, the rest of the queue and the decommitments left; it yields the new queue
  and decommitments. Comparisons with \<open>NaN\<close> are false.
\<close>

definition verify_merge ::
  "(buffer \<Rightarrow> buffer) \<Rightarrow> int option \<Rightarrow> jsval \<Rightarrow> (int option \<times> jsval) list \<Rightarrow> jsval list
     \<Rightarrow> error + (int option \<times> jsval) list \<times> jsval list" where
  "verify_merge keccak index val queue decommits =
     (if (case index of Some i \<Rightarrow> even i | None \<Rightarrow> False) then
        (case hashNode keccak val (fst (js_shift decommits)) of
           Inl e \<Rightarrow> Inl e
         | Inr h \<Rightarrow> Inr (queue @ [(index_halved index, Some h)], snd (js_shift decommits)))
      else if queue \<noteq> [] \<and> index \<noteq> None \<and> fst (hd queue) = Some (the index - 1) then
        (case hashNode keccak (snd (hd queue)) val of
           Inl e \<Rightarrow> Inl e
         | Inr h \<Rightarrow> Inr (tl queue @ [(index_halved index, Some h)], decommits))
      else
        (case hashNode keccak (fst (js_shift decommits)) val of
           Inl e \<Rightarrow> Inl e
         | Inr h \<Rightarrow> Inr (queue @ [(index_halved index, Some h)], snd (js_shift decommits))))"

lemma verify_merge_decreases:
  assumes "verify_merge keccak index val queue decommits = Inr (queue', decommits')"
  shows "length queue' + length decommits' < Suc (length queue) + length decommits"
proof -
  have shift: "hashNode keccak a (fst (js_shift decommits)) = Inr h
                 \<or> hashNode keccak (fst (js_shift decommits)) a = Inr h
               \<Longrightarrow> length (snd (js_shift decommits)) < length decommits" for a h
    by (cases decommits) (auto simp: js_shift_def hashNode_def split: option.splits)
  show ?thesis
    using assms shift
    by (fastforce simp: verify_merge_def split: if_splits sum.splits)
qed

function verify_loop ::
  "(buffer \<Rightarrow> buffer) \<Rightarrow> jsval \<Rightarrow> (int option \<times> jsval) list \<Rightarrow> jsval list \<Rightarrow> error + bool" where
  "verify_loop keccak root queue decommits =
     (case queue of
        [] \<Rightarrow> Inl AssertionError
      | (index, val) # queue' \<Rightarrow>
          if index = Some 1 then buffer_equals val root
          else (case verify_merge keccak index val queue' decommits of
                  Inl e \<Rightarrow> Inl e
                | Inr (queue'', decommits') \<Rightarrow> verify_loop keccak root queue'' decommits'))"
  by pat_completeness auto
termination
  by (relation "measure (\<lambda>(keccak, root, queue, decommits). length queue + length decommits)")
     (auto dest: verify_merge_decreases)

declare verify_loop.simps [simp del]

text \<open>
  The queue and the decommitments left after \<open>n\<close> merges, when the loop runs that long:
  \<open>None\<close> when it has returned or thrown before.
\<close>

fun verify_after ::
  "(buffer \<Rightarrow> buffer) \<Rightarrow> nat \<Rightarrow> (int option \<times> jsval) list \<Rightarrow> jsval list
     \<Rightarrow> ((int option \<times> jsval) list \<times> jsval list) option" where
  "verify_after keccak 0 queue decommits = Some (queue, decommits)"
| "verify_after keccak (Suc n) queue decommits =
     (case queue of
        [] \<Rightarrow> None
      | (index, val) # queue' \<Rightarrow>
          if index = Some 1 then None
          else (case verify_merge keccak index val queue' decommits of
                  Inl e \<Rightarrow> None
                | Inr (queue'', decommits') \<Rightarrow> verify_after keccak n queue'' decommits'))"

text \<open>
  \<^verbatim>\<open>
  const verifyMultiProof = (mixedRoot, root, leafCount, indices, values, decommitments) => {
    if (!validateMixedRoot(mixedRoot, root, leafCount)) return false;
    const decommits = decommitments.map((decommitment) => decommitment);
    ...
  \<close>
\<close>

definition verifyMultiProof ::
  "(buffer \<Rightarrow> buffer) \<Rightarrow> jsval \<Rightarrow> jsval \<Rightarrow> int \<Rightarrow> int list \<Rightarrow> jsval list \<Rightarrow> jsval list
     \<Rightarrow> error + bool" where
  "verifyMultiProof keccak mixedRoot root leafCount indices vals decommitments =
     (case validateMixedRoot keccak mixedRoot root leafCount of
        Inl e \<Rightarrow> Inl e
      | Inr ok \<Rightarrow>
          if \<not> ok then Inr False
          else verify_loop keccak root (verify_queue leafCount indices vals) decommitments)"

section \<open>Flag multi-proofs that infer the append proof\<close>

text \<open>
  The working state of \<open>getRootBooleans\<close> and \<open>getRootBits\<close>: every \<open>let\<close> variable and
  array the loop updates.
\<close>

record proofState =
  hashes :: "jsval list"
  readIndex :: nat
  writeIndex :: nat
  decommitmentIndex :: nat
  useLeafs :: bool
  appendNodeIndex :: int
  readIndexOfAppendNode :: nat
  appendDecommitmentIndex :: int
  appendDecommitments :: "jsval list"
  hash :: jsval

text \<open>
  \<open>hashFunction\<close> is supplied by the caller. It is modelled as a function on buffers
  that throws a \<open>TypeError\<close> when handed \<open>undefined\<close> or \<open>null\<close>, as the library's own
  \<open>hashNode\<close> does.
\<close>

definition callHash :: "(buffer \<Rightarrow> buffer \<Rightarrow> buffer) \<Rightarrow> jsval \<Rightarrow> jsval \<Rightarrow> error + buffer" where
  "callHash hashFunction a b =
     (case (a, b) of (Some x, Some y) \<Rightarrow> Inr (hashFunction x y) | _ \<Rightarrow> Inl TypeError)"

text \<open>
  \<^verbatim>\<open>
  let readIndex = 0;
  let writeIndex = 0;
  let decommitmentIndex = 0;
  let useLeafs = true;
  let appendNodeIndex = elementCount;
  let readIndexOfAppendNode = 0;
  let appendDecommitmentIndex = bitCount32(elementCount);
  const appendDecommitments = Array(appendDecommitmentIndex).fill(null);
  let hash;
  \<close>
  \<open>Array(n)\<close> throws a \<open>RangeError\<close> for a negative \<open>n\<close>.
\<close>

definition initialState :: "jsval list \<Rightarrow> int \<Rightarrow> error + proofState" where
  "initialState leafs elementCount =
     (if bitCount32 elementCount < 0 then Inl RangeError
      else Inr \<lparr> hashes = replicate (length leafs) None, readIndex = 0, writeIndex = 0,
                 decommitmentIndex = 0, useLeafs = True, appendNodeIndex = elementCount,
                 readIndexOfAppendNode = 0,
                 appendDecommitmentIndex = bitCount32 elementCount,
                 appendDecommitments = replicate (nat (bitCount32 elementCount)) None,
                 hash = None \<rparr>)"

text \<open>
  The body of the loop for a position whose skip bit is set (the code is the same in
  both functions):
  \<^verbatim>\<open>
  const skippedHash = useLeafs ? leafs[readIndex++] : hashes[readIndex++];
  if (appendNodeIndex & 1) {
    appendDecommitments[--appendDecommitmentIndex] = skippedHash;
    hash = skippedHash;
  }
  readIndexOfAppendNode = writeIndex;
  appendNodeIndex >>>= 1;
  hashes[writeIndex++] = skippedHash;
  if (useLeafs && readIndex === leafCount) useLeafs = false;
  readIndex %= leafCount;
  writeIndex %= leafCount;
  \<close>
  With no leafs at all, \<open>% leafCount\<close> yields \<open>NaN\<close> and every later read is
  \<open>undefined\<close>; in the model \<open>mod 0\<close> leaves the index as it is, and every later read is
  out of range, which is \<open>undefined\<close> too.
\<close>

definition skipStep :: "jsval list \<Rightarrow> proofState \<Rightarrow> proofState" where
  "skipStep leafs st =
     (let leafCount = length leafs;
          skippedHash = (if useLeafs st then js_nth leafs (readIndex st)
                         else js_nth (hashes st) (readIndex st));
          readIndex1 = readIndex st + 1;
          odd_node = (js_and (appendNodeIndex st) 1 \<noteq> 0)
      in st \<lparr> appendDecommitmentIndex :=
                  (if odd_node then appendDecommitmentIndex st - 1
                   else appendDecommitmentIndex st),
                appendDecommitments :=
                  (if odd_node
                   then js_set_int (appendDecommitments st) (appendDecommitmentIndex st - 1)
                          skippedHash
                   else appendDecommitments st),
                hash := (if odd_node then skippedHash else hash st),
                readIndexOfAppendNode := writeIndex st,
                appendNodeIndex := js_shr (appendNodeIndex st) 1,
                hashes := js_set (hashes st) (writeIndex st) skippedHash,
                useLeafs := (if useLeafs st \<and> readIndex1 = leafCount then False
                             else useLeafs st),
                readIndex := readIndex1 mod leafCount,
                writeIndex := (writeIndex st + 1) mod leafCount \<rparr>)"

text \<open>
  The body of the loop for a position whose skip bit is clear, \<open>flag\<close> being that
  position's flag:
  \<^verbatim>\<open>
  const nextReadIndex = (readIndex + 1) % leafCount;
  const appendHash = flag
    ? useLeafs ? leafs[nextReadIndex] : hashes[nextReadIndex]
    : decommitments[decommitmentIndex];
  if (readIndexOfAppendNode === readIndex) {
    if (appendNodeIndex & 1) {
      appendDecommitments[--appendDecommitmentIndex] = appendHash;
      hash = hashFunction(appendHash, hash);
    }
    readIndexOfAppendNode = writeIndex;
    appendNodeIndex >>>= 1;
  }
  const right = flag ? (useLeafs ? leafs[readIndex++] : hashes[readIndex++])
                     : decommitments[decommitmentIndex++];
  readIndex %= leafCount;
  const left = useLeafs ? leafs[readIndex++] : hashes[readIndex++];
  hashes[writeIndex++] = hashFunction(left, right);
  if (useLeafs && readIndex === leafCount) useLeafs = false;
  readIndex %= leafCount;
  writeIndex %= leafCount;
  \<close>
\<close>

definition combineStep ::
  "(buffer \<Rightarrow> buffer \<Rightarrow> buffer) \<Rightarrow> jsval list \<Rightarrow> jsval list \<Rightarrow> bool \<Rightarrow> proofState
     \<Rightarrow> error + proofState" where
  "combineStep hashFunction leafs decommitments flag st =
     (let leafCount = length leafs;
          nextReadIndex = (readIndex st + 1) mod leafCount;
          appendHash = (if flag
                        then (if useLeafs st then js_nth leafs nextReadIndex
                              else js_nth (hashes st) nextReadIndex)
                        else js_nth decommitments (decommitmentIndex st));
          at_append_node = (readIndexOfAppendNode st = readIndex st);
          odd_node = (js_and (appendNodeIndex st) 1 \<noteq> 0)
      in case (if at_append_node \<and> odd_node
               then (case callHash hashFunction appendHash (hash st) of
                       Inl e \<Rightarrow> Inl e
                     | Inr h \<Rightarrow> Inr (Some h))
               else Inr (hash st)) of
           Inl e \<Rightarrow> Inl e
         | Inr accumulated \<Rightarrow>
             (let st1 = (if at_append_node
                         then st \<lparr> appendDecommitmentIndex :=
                                     (if odd_node then appendDecommitmentIndex st - 1
                                      else appendDecommitmentIndex st),
                                   appendDecommitments :=
                                     (if odd_node
                                      then js_set_int (appendDecommitments st)
                                             (appendDecommitmentIndex st - 1) appendHash
                                      else appendDecommitments st),
                                   hash := accumulated,
                                   readIndexOfAppendNode := writeIndex st,
                                   appendNodeIndex := js_shr (appendNodeIndex st) 1 \<rparr>
                         else st);
                  right = (if flag
                           then (if useLeafs st then js_nth leafs (readIndex st)
                                 else js_nth (hashes st) (readIndex st))
                           else js_nth decommitments (decommitmentIndex st));
                  readIndex1 = (if flag then readIndex st + 1 else readIndex st) mod leafCount;
                  decommitmentIndex1 = (if flag then decommitmentIndex st
                                        else decommitmentIndex st + 1);
                  left = (if useLeafs st then js_nth leafs readIndex1
                          else js_nth (hashes st) readIndex1);
                  readIndex2 = readIndex1 + 1
              in case callHash hashFunction left right of
                   Inl e \<Rightarrow> Inl e
                 | Inr h \<Rightarrow>
                     Inr (st1 \<lparr> hashes := js_set (hashes st) (writeIndex st) (Some h),
                                decommitmentIndex := decommitmentIndex1,
                                useLeafs := (if useLeafs st \<and> readIndex2 = leafCount
                                             then False else useLeafs st),
                                readIndex := readIndex2 mod leafCount,
                                writeIndex := (writeIndex st + 1) mod leafCount \<rparr>)))"

text \<open>
  What both functions do once the proof is consumed:
  \<^verbatim>\<open>
  const root = useLeafs ? leafs[0] : hashes[(writeIndex === 0 ? leafCount : writeIndex) - 1];
  assert(appendDecommitmentIndex === 1 || hash.equals(root), 'Invalid Proof.');
  return { root: Buffer.from(root) };
  \<close>
  \<open>hash.equals\<close> throws a \<open>TypeError\<close> when \<open>hash\<close> is \<open>undefined\<close> or \<open>root\<close> is not a
  buffer, and so does \<open>Buffer.from(root)\<close>.
\<close>

definition finalRoot :: "jsval list \<Rightarrow> proofState \<Rightarrow> jsval" where
  "finalRoot leafs st =
     (if useLeafs st then js_nth leafs 0
      else js_nth_int (hashes st)
             (int (if writeIndex st = 0 then length leafs else writeIndex st) - 1))"

definition checkRoot :: "jsval list \<Rightarrow> proofState \<Rightarrow> error + buffer" where
  "checkRoot leafs st =
     (let root = finalRoot leafs st
      in case (if appendDecommitmentIndex st = 1 then Inr True
               else buffer_equals (hash st) root) of
           Inl e \<Rightarrow> Inl e
         | Inr ok \<Rightarrow>
             if \<not> ok then Inl AssertionError
             else (case root of None \<Rightarrow> Inl TypeError | Some r \<Rightarrow> Inr r))"

text \<open>
  \<^verbatim>\<open>
  for (let i = 0; i < hashCount; i++) {
    if (skips[i]) { ...; continue; }
    ...
  }
  \<close>
  with \<open>hashCount = flags.length\<close>; \<open>skips[i]\<close> past the end of \<open>skips\<close> is \<open>undefined\<close>,
  which is falsy.
\<close>

definition truthy_at :: "bool list \<Rightarrow> nat \<Rightarrow> bool" where
  "truthy_at xs i = (i < length xs \<and> xs ! i)"

function getRootBooleans_loop ::
  "(buffer \<Rightarrow> buffer \<Rightarrow> buffer) \<Rightarrow> jsval list \<Rightarrow> bool list \<Rightarrow> bool list \<Rightarrow> jsval list
     \<Rightarrow> nat \<Rightarrow> proofState \<Rightarrow> error + proofState" where
  "getRootBooleans_loop hashFunction leafs flags skips decommitments i st =
     (if i < length flags then
        (if truthy_at skips i
         then getRootBooleans_loop hashFunction leafs flags skips decommitments (Suc i)
                (skipStep leafs st)
         else (case combineStep hashFunction leafs decommitments (flags ! i) st of
                 Inl e \<Rightarrow> Inl e
               | Inr st' \<Rightarrow>
                   getRootBooleans_loop hashFunction leafs flags skips decommitments (Suc i) st'))
      else Inr st)"
  by pat_completeness auto
termination
  by (relation "measure (\<lambda>(hashFunction, leafs, flags, skips, decommitments, i, st).
                  length flags - i)") auto

declare getRootBooleans_loop.simps [simp del]

text \<open>
  The run of \<open>getRootBooleans\<close> up to the end of its loop, then the function itself,
  which returns the root only.
\<close>

definition getRootBooleans_run ::
  "(buffer \<Rightarrow> buffer \<Rightarrow> buffer) \<Rightarrow> jsval list \<Rightarrow> int \<Rightarrow> bool list \<Rightarrow> bool list \<Rightarrow> jsval list
     \<Rightarrow> error + proofState" where
  "getRootBooleans_run hashFunction leafs elementCount flags skips decommitments =
     (case initialState leafs elementCount of
        Inl e \<Rightarrow> Inl e
      | Inr st \<Rightarrow> getRootBooleans_loop hashFunction leafs flags skips decommitments 0 st)"

definition getRootBooleans ::
  "(buffer \<Rightarrow> buffer \<Rightarrow> buffer) \<Rightarrow> jsval list \<Rightarrow> int \<Rightarrow> bool list \<Rightarrow> bool list \<Rightarrow> jsval list
     \<Rightarrow> error + buffer" where
  "getRootBooleans hashFunction leafs elementCount flags skips decommitments =
     (case getRootBooleans_run hashFunction leafs elementCount flags skips decommitments of
        Inl e \<Rightarrow> Inl e
      | Inr st \<Rightarrow> checkRoot leafs st)"

text \<open>
  In \<open>getRootBits\<close> the flags and the skips are two 32-byte buffers, \<open>proof[0]\<close> and
  \<open>proof[1]\<close>, read as bit vectors: a \<open>256 word\<close> each. \<open>bitCheck\<close> starts as the 32-byte
  buffer of value 1; \<open>and\<close> and \<open>leftShift\<close> of the package \<open>bitwise-buffer\<close> are the bitwise
  conjunction and the shift within those 32 bytes.
  \<^verbatim>\<open>
  while (true) {
    const flag = and(flags, bitCheck).equals(bitCheck);
    if (and(skips, bitCheck).equals(bitCheck)) {
      if (flag) { ... return { root: Buffer.from(root) }; }
      ...
      bitCheck = leftShift(bitCheck, 1);
      continue;
    }
    ...
    bitCheck = leftShift(bitCheck, 1);
  }
  \<close>
  The loop ends on a position where both bits are set; it returns the state it has
  reached there.
\<close>

function getRootBits_loop ::
  "(buffer \<Rightarrow> buffer \<Rightarrow> buffer) \<Rightarrow> jsval list \<Rightarrow> 256 word \<Rightarrow> 256 word \<Rightarrow> jsval list
     \<Rightarrow> 256 word \<Rightarrow> proofState \<Rightarrow> error + proofState" where
  "getRootBits_loop hashFunction leafs flags skips decommitments bitCheck st =
     (let flag = (flags AND bitCheck = bitCheck)
      in if skips AND bitCheck = bitCheck then
           (if flag then Inr st
            else getRootBits_loop hashFunction leafs flags skips decommitments
                   (push_bit 1 bitCheck) (skipStep leafs st))
         else (case combineStep hashFunction leafs decommitments flag st of
                 Inl e \<Rightarrow> Inl e
               | Inr st' \<Rightarrow>
                   getRootBits_loop hashFunction leafs flags skips decommitments
                     (push_bit 1 bitCheck) st'))"
  by pat_completeness auto

termination
proof (relation "measure (\<lambda>(hashFunction, leafs, flags, skips, decommitments, bitCheck, st).
                   LEAST n. push_bit n bitCheck = 0)")
  have shrink: "(LEAST n. push_bit n (push_bit 1 w) = 0) < (LEAST n. push_bit n w = 0)"
    if "w \<noteq> 0" for w :: "256 word"
  proof -
    have ex: "push_bit 256 w = 0" by simp
    define m where "m = (LEAST n. push_bit n w = 0)"
    have pm: "push_bit m w = 0" unfolding m_def using ex by (rule LeastI)
    with that have "m \<noteq> 0" by (cases m) auto
    then obtain k where k: "m = Suc k" by (cases m) auto
    with pm have "push_bit k (push_bit 1 w) = 0" by simp
    then have "(LEAST n. push_bit n (push_bit 1 w) = 0) \<le> k" by (rule Least_le)
    with k show ?thesis unfolding m_def by simp
  qed
  fix hashFunction :: "buffer \<Rightarrow> buffer \<Rightarrow> buffer"
    and leafs decommitments :: "jsval list"
    and flags skips bitCheck :: "256 word"
    and st :: proofState and x :: bool
  {
    assume "x = (flags AND bitCheck = bitCheck)" "\<not> x"
    then have "bitCheck \<noteq> 0" by auto
    from shrink [OF this] show "((hashFunction, leafs, flags, skips, decommitments, push_bit 1 bitCheck,
                 skipStep leafs st),
                hashFunction, leafs, flags, skips, decommitments, bitCheck, st)
               \<in> measure (\<lambda>(hashFunction, leafs, flags, skips, decommitments, bitCheck, st).
                    LEAST n. push_bit n bitCheck = 0)"
      by simp
  }
  {
    fix st' :: proofState
    assume "skips AND bitCheck \<noteq> bitCheck"
    then have "bitCheck \<noteq> 0" by auto
    from shrink [OF this] show "((hashFunction, leafs, flags, skips, decommitments, push_bit 1 bitCheck, st'),
                hashFunction, leafs, flags, skips, decommitments, bitCheck, st)
               \<in> measure (\<lambda>(hashFunction, leafs, flags, skips, decommitments, bitCheck, st).
                    LEAST n. push_bit n bitCheck = 0)"
      by simp
  }
qed simp

declare getRootBits_loop.simps [simp del]

definition getRootBits_run ::
  "(buffer \<Rightarrow> buffer \<Rightarrow> buffer) \<Rightarrow> jsval list \<Rightarrow> int \<Rightarrow> 256 word \<Rightarrow> 256 word \<Rightarrow> jsval list
     \<Rightarrow> error + proofState" where
  "getRootBits_run hashFunction leafs elementCount flags skips decommitments =
     (case initialState leafs elementCount of
        Inl e \<Rightarrow> Inl e
      | Inr st \<Rightarrow> getRootBits_loop hashFunction leafs flags skips decommitments 1 st)"

definition getRootBits ::
  "(buffer \<Rightarrow> buffer \<Rightarrow> buffer) \<Rightarrow> jsval list \<Rightarrow> int \<Rightarrow> 256 word \<Rightarrow> 256 word \<Rightarrow> jsval list
     \<Rightarrow> error + buffer" where
  "getRootBits hashFunction leafs elementCount flags skips decommitments =
     (case getRootBits_run hashFunction leafs elementCount flags skips decommitments of
        Inl e \<Rightarrow> Inl e
      | Inr st \<Rightarrow> checkRoot leafs st)"

section \<open>Flag multi-proofs that update and append\<close>

text \<open>
  \<open>getNewRootBooleans\<close> and \<open>getNewRootBits\<close> run the same loop on two sets of values at
  once, the original leafs and the replacement leafs; the state gains the second queue.
  \<^verbatim>\<open>
  const hashes = Array(leafCount).fill(null);
  const newHashes = Array(Math.max(leafCount, (appendLeafs.length >>> 1) + 1)).fill(null);
  \<close>
\<close>

record updateState = proofState +
  newHashes :: "jsval list"

definition initialUpdateState :: "jsval list \<Rightarrow> jsval list \<Rightarrow> int \<Rightarrow> error + updateState" where
  "initialUpdateState leafs appendLeafs elementCount =
     (if bitCount32 elementCount < 0 then Inl RangeError
      else Inr \<lparr> hashes = replicate (length leafs) None, readIndex = 0, writeIndex = 0,
                 decommitmentIndex = 0, useLeafs = True, appendNodeIndex = elementCount,
                 readIndexOfAppendNode = 0,
                 appendDecommitmentIndex = bitCount32 elementCount,
                 appendDecommitments = replicate (nat (bitCount32 elementCount)) None,
                 hash = None,
                 newHashes = replicate (max (length leafs)
                                          (nat (js_shr (int (length appendLeafs)) 1) + 1)) None \<rparr>)"

text \<open>
  \<^verbatim>\<open>
  const skippedHash = useLeafs ? leafs[readIndex] : hashes[readIndex];
  const newSkippedHash = useLeafs ? updateLeafs[readIndex++] : newHashes[readIndex++];
  if (appendNodeIndex & 1) {
    appendDecommitments[--appendDecommitmentIndex] = newSkippedHash;
    hash = skippedHash;
  }
  readIndexOfAppendNode = writeIndex;
  appendNodeIndex >>>= 1;
  hashes[writeIndex] = skippedHash;
  newHashes[writeIndex++] = newSkippedHash;
  if (useLeafs && readIndex === leafCount) useLeafs = false;
  readIndex %= leafCount;
  writeIndex %= leafCount;
  \<close>
\<close>

definition updateSkipStep :: "jsval list \<Rightarrow> jsval list \<Rightarrow> updateState \<Rightarrow> updateState" where
  "updateSkipStep leafs updateLeafs st =
     (let leafCount = length leafs;
          skippedHash = (if useLeafs st then js_nth leafs (readIndex st)
                         else js_nth (hashes st) (readIndex st));
          newSkippedHash = (if useLeafs st then js_nth updateLeafs (readIndex st)
                            else js_nth (newHashes st) (readIndex st));
          readIndex1 = readIndex st + 1;
          odd_node = (js_and (appendNodeIndex st) 1 \<noteq> 0)
      in st \<lparr> appendDecommitmentIndex :=
                  (if odd_node then appendDecommitmentIndex st - 1
                   else appendDecommitmentIndex st),
                appendDecommitments :=
                  (if odd_node
                   then js_set_int (appendDecommitments st) (appendDecommitmentIndex st - 1)
                          newSkippedHash
                   else appendDecommitments st),
                hash := (if odd_node then skippedHash else hash st),
                readIndexOfAppendNode := writeIndex st,
                appendNodeIndex := js_shr (appendNodeIndex st) 1,
                hashes := js_set (hashes st) (writeIndex st) skippedHash,
                newHashes := js_set (newHashes st) (writeIndex st) newSkippedHash,
                useLeafs := (if useLeafs st \<and> readIndex1 = leafCount then False
                             else useLeafs st),
                readIndex := readIndex1 mod leafCount,
                writeIndex := (writeIndex st + 1) mod leafCount \<rparr>)"

text \<open>
  \<^verbatim>\<open>
  const nextReadIndex = (readIndex + 1) % leafCount;
  const appendHash = flag
    ? useLeafs ? leafs[nextReadIndex] : hashes[nextReadIndex]
    : decommitments[decommitmentIndex];
  const newAppendHash = flag
    ? useLeafs ? updateLeafs[nextReadIndex] : newHashes[nextReadIndex]
    : decommitments[decommitmentIndex];
  if (readIndexOfAppendNode === readIndex) {
    if (appendNodeIndex & 1) {
      appendDecommitments[--appendDecommitmentIndex] = newAppendHash;
      hash = hashFunction(appendHash, hash);
    }
    readIndexOfAppendNode = writeIndex;
    appendNodeIndex >>>= 1;
  }
  const right = flag ? (useLeafs ? leafs[readIndex] : hashes[readIndex])
                     : decommitments[decommitmentIndex];
  const newRight = flag
    ? useLeafs ? updateLeafs[readIndex++] : newHashes[readIndex++]
    : decommitments[decommitmentIndex++];
  readIndex %= leafCount;
  const left = useLeafs ? leafs[readIndex] : hashes[readIndex];
  const newLeft = useLeafs ? updateLeafs[readIndex++] : newHashes[readIndex++];
  hashes[writeIndex] = hashFunction(left, right);
  newHashes[writeIndex++] = hashFunction(newLeft, newRight);
  if (useLeafs && readIndex === leafCount) useLeafs = false;
  readIndex %= leafCount;
  writeIndex %= leafCount;
  \<close>
  (\<open>getNewRootBits\<close> computes \<open>appendHash\<close> and \<open>newAppendHash\<close> inside the inner \<open>if\<close>,
  where alone they are used.)
\<close>

definition updateCombineStep ::
  "(buffer \<Rightarrow> buffer \<Rightarrow> buffer) \<Rightarrow> jsval list \<Rightarrow> jsval list \<Rightarrow> jsval list \<Rightarrow> bool
     \<Rightarrow> updateState \<Rightarrow> error + updateState" where
  "updateCombineStep hashFunction leafs updateLeafs decommitments flag st =
     (let leafCount = length leafs;
          nextReadIndex = (readIndex st + 1) mod leafCount;
          appendHash = (if flag
                        then (if useLeafs st then js_nth leafs nextReadIndex
                              else js_nth (hashes st) nextReadIndex)
                        else js_nth decommitments (decommitmentIndex st));
          newAppendHash = (if flag
                           then (if useLeafs st then js_nth updateLeafs nextReadIndex
                                 else js_nth (newHashes st) nextReadIndex)
                           else js_nth decommitments (decommitmentIndex st));
          at_append_node = (readIndexOfAppendNode st = readIndex st);
          odd_node = (js_and (appendNodeIndex st) 1 \<noteq> 0)
      in case (if at_append_node \<and> odd_node
               then (case callHash hashFunction appendHash (hash st) of
                       Inl e \<Rightarrow> Inl e
                     | Inr h \<Rightarrow> Inr (Some h))
               else Inr (hash st)) of
           Inl e \<Rightarrow> Inl e
         | Inr accumulated \<Rightarrow>
             (let st1 = (if at_append_node
                         then st \<lparr> appendDecommitmentIndex :=
                                     (if odd_node then appendDecommitmentIndex st - 1
                                      else appendDecommitmentIndex st),
                                   appendDecommitments :=
                                     (if odd_node
                                      then js_set_int (appendDecommitments st)
                                             (appendDecommitmentIndex st - 1) newAppendHash
                                      else appendDecommitments st),
                                   hash := accumulated,
                                   readIndexOfAppendNode := writeIndex st,
                                   appendNodeIndex := js_shr (appendNodeIndex st) 1 \<rparr>
                         else st);
                  right = (if flag
                           then (if useLeafs st then js_nth leafs (readIndex st)
                                 else js_nth (hashes st) (readIndex st))
                           else js_nth decommitments (decommitmentIndex st));
                  newRight = (if flag
                              then (if useLeafs st then js_nth updateLeafs (readIndex st)
                                    else js_nth (newHashes st) (readIndex st))
                              else js_nth decommitments (decommitmentIndex st));
                  readIndex1 = (if flag then readIndex st + 1 else readIndex st) mod leafCount;
                  decommitmentIndex1 = (if flag then decommitmentIndex st
                                        else decommitmentIndex st + 1);
                  left = (if useLeafs st then js_nth leafs readIndex1
                          else js_nth (hashes st) readIndex1);
                  newLeft = (if useLeafs st then js_nth updateLeafs readIndex1
                             else js_nth (newHashes st) readIndex1);
                  readIndex2 = readIndex1 + 1
              in case callHash hashFunction left right of
                   Inl e \<Rightarrow> Inl e
                 | Inr h \<Rightarrow>
                     (case callHash hashFunction newLeft newRight of
                        Inl e \<Rightarrow> Inl e
                      | Inr h' \<Rightarrow>
                          Inr (st1 \<lparr> hashes := js_set (hashes st) (writeIndex st) (Some h),
                                     newHashes := js_set (newHashes st) (writeIndex st) (Some h'),
                                     decommitmentIndex := decommitmentIndex1,
                                     useLeafs := (if useLeafs st \<and> readIndex2 = leafCount
                                                  then False else useLeafs st),
                                     readIndex := readIndex2 mod leafCount,
                                     writeIndex := (writeIndex st + 1) mod leafCount \<rparr>))))"

function getNewRootBooleans_loop ::
  "(buffer \<Rightarrow> buffer \<Rightarrow> buffer) \<Rightarrow> jsval list \<Rightarrow> jsval list \<Rightarrow> bool list \<Rightarrow> bool list
     \<Rightarrow> jsval list \<Rightarrow> nat \<Rightarrow> updateState \<Rightarrow> error + updateState" where
  "getNewRootBooleans_loop hashFunction leafs updateLeafs flags skips decommitments i st =
     (if i < length flags then
        (if truthy_at skips i
         then getNewRootBooleans_loop hashFunction leafs updateLeafs flags skips decommitments
                (Suc i) (updateSkipStep leafs updateLeafs st)
         else (case updateCombineStep hashFunction leafs updateLeafs decommitments (flags ! i) st of
                 Inl e \<Rightarrow> Inl e
               | Inr st' \<Rightarrow>
                   getNewRootBooleans_loop hashFunction leafs updateLeafs flags skips
                     decommitments (Suc i) st'))
      else Inr st)"
  by pat_completeness auto
termination
  by (relation "measure (\<lambda>(hashFunction, leafs, updateLeafs, flags, skips, decommitments, i, st).
                  length flags - i)") auto

declare getNewRootBooleans_loop.simps [simp del]

function getNewRootBits_loop ::
  "(buffer \<Rightarrow> buffer \<Rightarrow> buffer) \<Rightarrow> jsval list \<Rightarrow> jsval list \<Rightarrow> 256 word \<Rightarrow> 256 word
     \<Rightarrow> jsval list \<Rightarrow> 256 word \<Rightarrow> updateState \<Rightarrow> error + updateState" where
  "getNewRootBits_loop hashFunction leafs updateLeafs flags skips decommitments bitCheck st =
     (let flag = (flags AND bitCheck = bitCheck)
      in if skips AND bitCheck = bitCheck then
           (if flag then Inr st
            else getNewRootBits_loop hashFunction leafs updateLeafs flags skips decommitments
                   (push_bit 1 bitCheck) (updateSkipStep leafs updateLeafs st))
         else (case updateCombineStep hashFunction leafs updateLeafs decommitments flag st of
                 Inl e \<Rightarrow> Inl e
               | Inr st' \<Rightarrow>
                   getNewRootBits_loop hashFunction leafs updateLeafs flags skips decommitments
                     (push_bit 1 bitCheck) st'))"
  by pat_completeness auto
termination
proof (relation "measure (\<lambda>(hashFunction, leafs, updateLeafs, flags, skips, decommitments,
                            bitCheck, st). LEAST n. push_bit n bitCheck = 0)")
  have shrink: "(LEAST n. push_bit n (push_bit 1 w) = 0) < (LEAST n. push_bit n w = 0)"
    if "w \<noteq> 0" for w :: "256 word"
  proof -
    have ex: "push_bit 256 w = 0" by simp
    define m where "m = (LEAST n. push_bit n w = 0)"
    have pm: "push_bit m w = 0" unfolding m_def using ex by (rule LeastI)
    with that have "m \<noteq> 0" by (cases m) auto
    then obtain k where k: "m = Suc k" by (cases m) auto
    with pm have "push_bit k (push_bit 1 w) = 0" by simp
    then have "(LEAST n. push_bit n (push_bit 1 w) = 0) \<le> k" by (rule Least_le)
    with k show ?thesis unfolding m_def by simp
  qed
  fix hashFunction :: "buffer \<Rightarrow> buffer \<Rightarrow> buffer"
    and leafs updateLeafs decommitments :: "jsval list"
    and flags skips bitCheck :: "256 word"
    and st :: updateState and x :: bool
  {
    assume "x = (flags AND bitCheck = bitCheck)" "\<not> x"
    then have "bitCheck \<noteq> 0" by auto
    from shrink [OF this] show
      "((hashFunction, leafs, updateLeafs, flags, skips, decommitments, push_bit 1 bitCheck,
         updateSkipStep leafs updateLeafs st),
        hashFunction, leafs, updateLeafs, flags, skips, decommitments, bitCheck, st)
       \<in> measure (\<lambda>(hashFunction, leafs, updateLeafs, flags, skips, decommitments,
                      bitCheck, st). LEAST n. push_bit n bitCheck = 0)"
      by simp
  }
  {
    fix st' :: updateState
    assume "skips AND bitCheck \<noteq> bitCheck"
    then have "bitCheck \<noteq> 0" by auto
    from shrink [OF this] show
      "((hashFunction, leafs, updateLeafs, flags, skips, decommitments, push_bit 1 bitCheck, st'),
        hashFunction, leafs, updateLeafs, flags, skips, decommitments, bitCheck, st)
       \<in> measure (\<lambda>(hashFunction, leafs, updateLeafs, flags, skips, decommitments,
                      bitCheck, st). LEAST n. push_bit n bitCheck = 0)"
      by simp
  }
qed simp

declare getNewRootBits_loop.simps [simp del]

text \<open>
  \<^verbatim>\<open>
  const rootIndex = (writeIndex === 0 ? leafCount : writeIndex) - 1;
  const oldRoot = useLeafs ? leafs[0] : hashes[rootIndex];
  const newRoot = useLeafs ? updateLeafs[0] : newHashes[rootIndex];
  \<close>
\<close>

definition rootIndex :: "jsval list \<Rightarrow> updateState \<Rightarrow> int" where
  "rootIndex leafs st = int (if writeIndex st = 0 then length leafs else writeIndex st) - 1"

definition oldRoot :: "jsval list \<Rightarrow> updateState \<Rightarrow> jsval" where
  "oldRoot leafs st =
     (if useLeafs st then js_nth leafs 0 else js_nth_int (hashes st) (rootIndex leafs st))"

definition newRoot :: "jsval list \<Rightarrow> jsval list \<Rightarrow> updateState \<Rightarrow> jsval" where
  "newRoot leafs updateLeafs st =
     (if useLeafs st then js_nth updateLeafs 0
      else js_nth_int (newHashes st) (rootIndex leafs st))"

text \<open>
  \<^verbatim>\<open>
  assert(appendDecommitmentIndex === 1 || hash.equals(oldRoot), 'Invalid Proof.');
  if (appendDecommitmentIndex === 1) appendDecommitments[0] = newRoot;
  \<close>
  The result is the array of append decommitments the second pass works from.
\<close>

definition checkOldRoot :: "jsval list \<Rightarrow> jsval list \<Rightarrow> updateState \<Rightarrow> error + jsval list" where
  "checkOldRoot leafs updateLeafs st =
     (case (if appendDecommitmentIndex st = 1 then Inr True
            else buffer_equals (hash st) (oldRoot leafs st)) of
        Inl e \<Rightarrow> Inl e
      | Inr ok \<Rightarrow>
          if \<not> ok then Inl AssertionError
          else Inr (if appendDecommitmentIndex st = 1
                    then js_set (appendDecommitments st) 0 (newRoot leafs updateLeafs st)
                    else appendDecommitments st))"

text \<open>
  The second pass appends \<open>appendLeafs\<close>:
  \<^verbatim>\<open>
  appendDecommitmentIndex = bitCount32(elementCount) - 1;
  let upperBound = elementCount + appendLeafs.length - 1;
  writeIndex = 0;
  readIndex = 0;
  let offset = elementCount;
  let index = offset;
  while (upperBound > 0) {
    useLeafs = offset >= elementCount;
    if (writeIndex === 0 && index & 1) {
      newHashes[writeIndex++] = hashFunction(
        appendDecommitments[appendDecommitmentIndex--],
        useLeafs ? appendLeafs[readIndex++] : newHashes[readIndex++]
      );
      index++;
    } else if (index < upperBound) {
      newHashes[writeIndex++] = hashFunction(
        useLeafs ? appendLeafs[readIndex++] : newHashes[readIndex++],
        useLeafs ? appendLeafs[readIndex++] : newHashes[readIndex++]
      );
      index += 2;
    }
    if (index >= upperBound) {
      if (index === upperBound)
        newHashes[writeIndex] = useLeafs ? appendLeafs[readIndex] : newHashes[readIndex];
      readIndex = 0;
      writeIndex = 0;
      upperBound >>>= 1;
      offset >>>= 1;
      index = offset;
    }
  }
  \<close>
  \<open>getNewRootBits\<close> has \<open>upperBound >>= 1\<close> where \<open>getNewRootBooleans\<close> has
  \<open>upperBound >>>= 1\<close>; the flag \<open>signedShift\<close> tells which.
\<close>

record appendState =
  as_newHashes :: "jsval list"
  as_appendDecommitmentIndex :: int
  as_upperBound :: int
  as_writeIndex :: nat
  as_readIndex :: nat
  as_offset :: int
  as_index :: int

definition appendFrom :: "jsval list \<Rightarrow> int \<Rightarrow> appendState \<Rightarrow> nat \<Rightarrow> jsval" where
  "appendFrom appendLeafs elementCount s k =
     (if as_offset s \<ge> elementCount then js_nth appendLeafs k else js_nth (as_newHashes s) k)"

definition appendHashStep ::
  "(buffer \<Rightarrow> buffer \<Rightarrow> buffer) \<Rightarrow> jsval list \<Rightarrow> int \<Rightarrow> jsval list \<Rightarrow> appendState
     \<Rightarrow> error + appendState" where
  "appendHashStep hashFunction appendLeafs elementCount appendDecs s =
     (if as_writeIndex s = 0 \<and> js_and (as_index s) 1 \<noteq> 0 then
        (case callHash hashFunction
                (js_nth_int appendDecs (as_appendDecommitmentIndex s))
                (appendFrom appendLeafs elementCount s (as_readIndex s)) of
           Inl e \<Rightarrow> Inl e
         | Inr h \<Rightarrow>
             Inr (s \<lparr> as_newHashes := js_set (as_newHashes s) (as_writeIndex s) (Some h),
                      as_appendDecommitmentIndex := as_appendDecommitmentIndex s - 1,
                      as_writeIndex := as_writeIndex s + 1,
                      as_readIndex := as_readIndex s + 1,
                      as_index := as_index s + 1 \<rparr>))
      else if as_index s < as_upperBound s then
        (case callHash hashFunction
                (appendFrom appendLeafs elementCount s (as_readIndex s))
                (appendFrom appendLeafs elementCount s (as_readIndex s + 1)) of
           Inl e \<Rightarrow> Inl e
         | Inr h \<Rightarrow>
             Inr (s \<lparr> as_newHashes := js_set (as_newHashes s) (as_writeIndex s) (Some h),
                      as_writeIndex := as_writeIndex s + 1,
                      as_readIndex := as_readIndex s + 2,
                      as_index := as_index s + 2 \<rparr>))
      else Inr s)"

definition appendLevelStep :: "bool \<Rightarrow> jsval list \<Rightarrow> int \<Rightarrow> appendState \<Rightarrow> appendState" where
  "appendLevelStep signedShift appendLeafs elementCount s =
     (if as_index s \<ge> as_upperBound s then
        s \<lparr> as_newHashes :=
               (if as_index s = as_upperBound s
                then js_set (as_newHashes s) (as_writeIndex s)
                       (appendFrom appendLeafs elementCount s (as_readIndex s))
                else as_newHashes s),
             as_readIndex := 0,
             as_writeIndex := 0,
             as_upperBound := (if signedShift then js_sar (as_upperBound s) 1
                               else js_shr (as_upperBound s) 1),
             as_offset := js_shr (as_offset s) 1,
             as_index := js_shr (as_offset s) 1 \<rparr>
      else s)"

definition appendStep ::
  "(buffer \<Rightarrow> buffer \<Rightarrow> buffer) \<Rightarrow> bool \<Rightarrow> jsval list \<Rightarrow> int \<Rightarrow> jsval list \<Rightarrow> appendState
     \<Rightarrow> error + appendState" where
  "appendStep hashFunction signedShift appendLeafs elementCount appendDecs s =
     (case appendHashStep hashFunction appendLeafs elementCount appendDecs s of
        Inl e \<Rightarrow> Inl e
      | Inr s' \<Rightarrow> Inr (appendLevelStep signedShift appendLeafs elementCount s'))"

lemma appendStep_decreases:
  assumes "appendStep hashFunction signedShift appendLeafs elementCount appendDecs s = Inr s'"
    and "0 < as_upperBound s"
  shows "(s', s) \<in> measures [\<lambda>s. nat (as_upperBound s), \<lambda>s. nat (as_upperBound s - as_index s)]"
proof -
  obtain s1 where h: "appendHashStep hashFunction appendLeafs elementCount appendDecs s = Inr s1"
    and s': "s' = appendLevelStep signedShift appendLeafs elementCount s1"
    using assms(1) by (auto simp: appendStep_def split: sum.splits)
  have ub: "as_upperBound s1 = as_upperBound s"
    using h by (auto simp: appendHashStep_def split: if_splits sum.splits)
  have idx: "as_index s1 \<ge> as_upperBound s \<or> as_index s1 > as_index s"
    using h by (auto simp: appendHashStep_def split: if_splits sum.splits)
  have halve: "js_sar u 1 < u \<and> js_shr u 1 < u" if "0 < u" for u :: int
  proof -
    have "js_toInt32 u \<le> u"
      unfolding js_toInt32_def using zmod_le_nonneg_dividend [of "u + 2 ^ 31" "2 ^ 32"] that by simp
    moreover have "js_toUint32 u \<le> u"
      unfolding js_toUint32_def using zmod_le_nonneg_dividend [of u "2 ^ 32"] that by simp
    ultimately show ?thesis using that unfolding js_sar_def js_shr_def by simp linarith
  qed
  show ?thesis
  proof (cases "as_index s1 \<ge> as_upperBound s1")
    case True
    then have "as_upperBound s' < as_upperBound s"
      using s' ub halve [OF assms(2)] by (simp add: appendLevelStep_def)
    then show ?thesis using assms(2) by simp
  next
    case False
    then have "s' = s1" using s' by (simp add: appendLevelStep_def)
    then show ?thesis using False ub idx assms(2) by auto
  qed
qed

function appendLoop ::
  "(buffer \<Rightarrow> buffer \<Rightarrow> buffer) \<Rightarrow> bool \<Rightarrow> jsval list \<Rightarrow> int \<Rightarrow> jsval list \<Rightarrow> appendState
     \<Rightarrow> error + appendState" where
  "appendLoop hashFunction signedShift appendLeafs elementCount appendDecs s =
     (if 0 < as_upperBound s then
        (case appendStep hashFunction signedShift appendLeafs elementCount appendDecs s of
           Inl e \<Rightarrow> Inl e
         | Inr s' \<Rightarrow> appendLoop hashFunction signedShift appendLeafs elementCount appendDecs s')
      else Inr s)"
  by pat_completeness auto
termination
  by (relation "inv_image
        (measures [\<lambda>s. nat (as_upperBound s), \<lambda>s. nat (as_upperBound s - as_index s)])
        (\<lambda>(hashFunction, signedShift, appendLeafs, elementCount, appendDecs, s). s)")
     (auto dest: appendStep_decreases)

declare appendLoop.simps [simp del]

definition appendPass ::
  "(buffer \<Rightarrow> buffer \<Rightarrow> buffer) \<Rightarrow> bool \<Rightarrow> jsval list \<Rightarrow> int \<Rightarrow> jsval list \<Rightarrow> jsval list
     \<Rightarrow> error + jsval" where
  "appendPass hashFunction signedShift appendLeafs elementCount appendDecs newHashes0 =
     (case appendLoop hashFunction signedShift appendLeafs elementCount appendDecs
             \<lparr> as_newHashes = newHashes0,
               as_appendDecommitmentIndex = bitCount32 elementCount - 1,
               as_upperBound = elementCount + int (length appendLeafs) - 1,
               as_writeIndex = 0, as_readIndex = 0,
               as_offset = elementCount, as_index = elementCount \<rparr> of
        Inl e \<Rightarrow> Inl e
      | Inr s \<Rightarrow> Inr (js_nth (as_newHashes s) 0))"

text \<open>
  \<^verbatim>\<open>
  return { root: Buffer.from(oldRoot), newRoot: newHashes[0] };
  \<close>
  The result is the pair of \<open>root\<close> and \<open>newRoot\<close>.
\<close>

definition getNewRoot_finish ::
  "(buffer \<Rightarrow> buffer \<Rightarrow> buffer) \<Rightarrow> bool \<Rightarrow> jsval list \<Rightarrow> jsval list \<Rightarrow> jsval list \<Rightarrow> int
     \<Rightarrow> updateState \<Rightarrow> error + buffer \<times> jsval" where
  "getNewRoot_finish hashFunction signedShift leafs updateLeafs appendLeafs elementCount st =
     (case checkOldRoot leafs updateLeafs st of
        Inl e \<Rightarrow> Inl e
      | Inr appendDecs \<Rightarrow>
          (case appendPass hashFunction signedShift appendLeafs elementCount appendDecs
                  (newHashes st) of
             Inl e \<Rightarrow> Inl e
           | Inr r \<Rightarrow>
               (case oldRoot leafs st of
                  None \<Rightarrow> Inl TypeError
                | Some old \<Rightarrow> Inr (old, r))))"

text \<open>
  The run of either function up to the end of its first loop, then the function itself.
  With no leafs at all the first loop works on \<open>NaN\<close> indices (see \<open>skipStep\<close>); the
  old root is then \<open>undefined\<close> and the function ends in a \<open>TypeError\<close>, in the code as
  in the model.
\<close>

definition getNewRootBooleans_run ::
  "(buffer \<Rightarrow> buffer \<Rightarrow> buffer) \<Rightarrow> jsval list \<Rightarrow> jsval list \<Rightarrow> jsval list \<Rightarrow> int
     \<Rightarrow> bool list \<Rightarrow> bool list \<Rightarrow> jsval list \<Rightarrow> error + updateState" where
  "getNewRootBooleans_run hashFunction leafs updateLeafs appendLeafs elementCount flags skips
     decommitments =
     (case initialUpdateState leafs appendLeafs elementCount of
        Inl e \<Rightarrow> Inl e
      | Inr st0 \<Rightarrow>
          getNewRootBooleans_loop hashFunction leafs updateLeafs flags skips decommitments 0 st0)"

definition getNewRootBooleans ::
  "(buffer \<Rightarrow> buffer \<Rightarrow> buffer) \<Rightarrow> jsval list \<Rightarrow> jsval list \<Rightarrow> jsval list \<Rightarrow> int
     \<Rightarrow> bool list \<Rightarrow> bool list \<Rightarrow> jsval list \<Rightarrow> error + buffer \<times> jsval" where
  "getNewRootBooleans hashFunction leafs updateLeafs appendLeafs elementCount flags skips
     decommitments =
     (case getNewRootBooleans_run hashFunction leafs updateLeafs appendLeafs elementCount
             flags skips decommitments of
        Inl e \<Rightarrow> Inl e
      | Inr st \<Rightarrow>
          getNewRoot_finish hashFunction False leafs updateLeafs appendLeafs elementCount st)"

definition getNewRootBits_run ::
  "(buffer \<Rightarrow> buffer \<Rightarrow> buffer) \<Rightarrow> jsval list \<Rightarrow> jsval list \<Rightarrow> jsval list \<Rightarrow> int
     \<Rightarrow> 256 word \<Rightarrow> 256 word \<Rightarrow> jsval list \<Rightarrow> error + updateState" where
  "getNewRootBits_run hashFunction leafs updateLeafs appendLeafs elementCount flags skips
     decommitments =
     (case initialUpdateState leafs appendLeafs elementCount of
        Inl e \<Rightarrow> Inl e
      | Inr st0 \<Rightarrow>
          getNewRootBits_loop hashFunction leafs updateLeafs flags skips decommitments 1 st0)"

definition getNewRootBits ::
  "(buffer \<Rightarrow> buffer \<Rightarrow> buffer) \<Rightarrow> jsval list \<Rightarrow> jsval list \<Rightarrow> jsval list \<Rightarrow> int
     \<Rightarrow> 256 word \<Rightarrow> 256 word \<Rightarrow> jsval list \<Rightarrow> error + buffer \<times> jsval" where
  "getNewRootBits hashFunction leafs updateLeafs appendLeafs elementCount flags skips
     decommitments =
     (case getNewRootBits_run hashFunction leafs updateLeafs appendLeafs elementCount
             flags skips decommitments of
        Inl e \<Rightarrow> Inl e
      | Inr st \<Rightarrow>
          getNewRoot_finish hashFunction True leafs updateLeafs appendLeafs elementCount st)"

section \<open>Auxiliary notions for the proofs\<close>

text \<open>The number a string of hexadecimal digits denotes.\<close>

definition hexValue :: "string \<Rightarrow> nat" where
  "hexValue s = foldl (\<lambda>acc c. 16 * acc + the (unhex c)) 0 s"




text \<open>The queue of new hashes mirrors the queue of old hashes.\<close>

definition mirrored :: "updateState \<Rightarrow> bool" where
  "mirrored st \<longleftrightarrow> (\<forall>k. js_nth (newHashes st) k = js_nth (hashes st) k)"

text \<open>An array cut or padded with \<open>undefined\<close> to a given length.\<close>

definition js_resized :: "nat \<Rightarrow> 'a option list \<Rightarrow> 'a option list" where
  "js_resized n xs = map (js_nth xs) [0 ..< n]"

text \<open>
  Modelled from the spec: the balanced tree of the data model, as an array. It has
  \<open>2 * 2^depth\<close> entries (an array is shorter than \<open>2^32\<close>), all of them buffers; the
  entry at index 0 is the mixed root of the entry at index 1 and the leaf count; every
  internal node is the hash of its two children.
\<close>

definition wellFormedTree :: "(buffer \<Rightarrow> buffer) \<Rightarrow> nat \<Rightarrow> jsval list \<Rightarrow> bool" where
  "wellFormedTree keccak depth tree \<longleftrightarrow>
     length tree = 2 * 2 ^ depth \<and> length tree < 2 ^ 32
     \<and> list_all (\<lambda>node. node \<noteq> None) tree
     \<and> validateMixedRoot keccak (tree ! 0) (tree ! 1) (2 ^ depth) = Inr True
     \<and> (\<forall>i \<in> {1 ..< 2 ^ depth}.
           hashNode keccak (tree ! (2 * i)) (tree ! (2 * i + 1)) = Inr (the (tree ! i)))"

text \<open>
  A node of the tree of \<open>L\<close> leaves is covered by a list of leaf indices when one of the
  leaves below it is in the list.
\<close>

function covered :: "nat \<Rightarrow> int list \<Rightarrow> nat \<Rightarrow> bool" where
  "covered L indices n =
     (if 0 < n \<and> n < L then covered L indices (2 * n) \<or> covered L indices (2 * n + 1)
      else int n - int L \<in> set indices)"
  by pat_completeness auto
termination
  by (relation "measure (\<lambda>(L, indices, n). L - n)") auto

declare covered.simps [simp del]

text \<open>What the generator pushes for the internal node \<open>p\<close>.\<close>

definition decommitmentAt :: "jsval list \<Rightarrow> nat \<Rightarrow> int list \<Rightarrow> nat \<Rightarrow> jsval list" where
  "decommitmentAt tree L indices p =
     (if covered L indices (2 * p) \<and> \<not> covered L indices (2 * p + 1)
      then [tree ! (2 * p + 1)] else [])
     @ (if covered L indices (2 * p + 1) \<and> \<not> covered L indices (2 * p)
        then [tree ! (2 * p)] else [])"

text \<open>The queue entry of the node \<open>n\<close>.\<close>

definition entryOf :: "jsval list \<Rightarrow> nat \<Rightarrow> int option \<times> jsval" where
  "entryOf tree n = (Some (int n), tree ! n)"

chapter \<open>Verification\<close>

section \<open>Facts about the 32-bit operators\<close>

lemma and_pred_even: "even w \<Longrightarrow> w AND (w - 1) = 2 * ((w div 2) AND (w div 2 - 1))" for w :: int
proof -
  assume e: "even w"
  then have "(w - 1) div 2 = w div 2 - 1" by presburger
  with e show ?thesis by (subst and_int_rec) simp
qed

lemma and_pred_odd: "odd w \<Longrightarrow> w AND (w - 1) = w - 1" for w :: int
proof -
  assume o: "odd w"
  then have "(w - 1) div 2 = w div 2" "2 * (w div 2) = w - 1" by presburger+
  with o show ?thesis by (subst and_int_rec) simp
qed

lemma js_and_1: "js_and v 1 = v mod 2"
  unfolding js_and_def js_toInt32_def
  by (simp add: and_one_eq)

lemma and_clear_bit0:
  fixes v :: int
  assumes "0 \<le> v" "v < 2 ^ 32"
  shows "v AND 0xfffffffe = v - v mod 2"
proof -
  have m: "(0x7fffffff::int) = mask 31" by (simp add: mask_eq_exp_minus_1)
  have "v div 2 AND 0x7fffffff = take_bit 31 (v div 2)"
    unfolding m by (simp add: take_bit_eq_mask)
  also have "\<dots> = v div 2" using assms by (intro take_bit_int_eq_self) auto
  finally have h: "v div 2 AND 0x7fffffff = v div 2" .
  have "v AND 0xfffffffe = 2 * (v div 2 AND 0x7fffffff)"
    by (subst and_int_rec) simp
  then show ?thesis using h by (simp add: minus_mod_eq_mult_div)
qed

lemma toInt32_mult: "js_toInt32 (js_toInt32 a * b) = js_toInt32 (a * b)"
proof -
  have "(((a + 2 ^ 31) mod 2 ^ 32 - 2 ^ 31) * b + 2 ^ 31) mod 2 ^ 32
      = (((a + 2 ^ 31) mod 2 ^ 32 - 2 ^ 31) mod 2 ^ 32 * b + 2 ^ 31) mod (2 ^ 32 :: int)"
    by (metis mod_add_left_eq mod_mult_left_eq)
  also have "((a + 2 ^ 31) mod 2 ^ 32 - 2 ^ 31) mod (2 ^ 32 :: int) = a mod 2 ^ 32"
    by (metis add_diff_cancel_right' mod_diff_left_eq)
  also have "(a mod 2 ^ 32 * b + 2 ^ 31) mod (2 ^ 32 :: int) = (a * b + 2 ^ 31) mod 2 ^ 32"
    by (metis mod_add_left_eq mod_mult_left_eq)
  finally show ?thesis unfolding js_toInt32_def by simp
qed

lemma toInt32_id: "- (2 ^ 31) \<le> x \<Longrightarrow> x < 2 ^ 31 \<Longrightarrow> js_toInt32 x = x"
  unfolding js_toInt32_def by simp

lemma toInt32_le: "0 \<le> x \<Longrightarrow> js_toInt32 x \<le> x"
  unfolding js_toInt32_def
  using zmod_le_nonneg_dividend [of "x + 2 ^ 31" "2 ^ 32"] by simp

section \<open>getMinimumIndex clears the lowest set bit\<close>

lemma getMinimumIndex_from_eq:
  "0 < v \<Longrightarrow> v < 2 ^ (32 - s) \<Longrightarrow> s \<le> 32 \<Longrightarrow>
     getMinimumIndex_from s v = Some (js_toInt32 ((v AND (v - 1)) * 2 ^ s))"
proof (induction s v rule: getMinimumIndex_from.induct)
  case (1 shifts elementCount)
  note unfold = getMinimumIndex_from.simps [of shifts elementCount]
  have lt32: "shifts < 32"
  proof (rule ccontr)
    assume "\<not> shifts < 32"
    with "1.prems" have "shifts = 32" by simp
    with "1.prems" show False by simp
  qed
  have b32: "elementCount < 2 ^ 32"
  proof -
    have "(2::int) ^ (32 - shifts) \<le> 2 ^ 32" by (rule power_increasing) auto
    with "1.prems" show ?thesis by linarith
  qed
  show ?case
  proof (cases "odd elementCount")
    case True
    then have nz: "js_and elementCount 1 \<noteq> 0" by (simp add: js_and_1 odd_iff_mod_2_eq_one)
    have "js_and elementCount 0xfffffffe = js_toInt32 (elementCount AND (elementCount - 1))"
      using True "1.prems" b32 by (simp add: js_and_def and_clear_bit0 and_pred_odd odd_iff_mod_2_eq_one)
    with nz lt32 show ?thesis
      by (simp add: unfold js_shl_def toInt32_mult)
  next
    case False
    then have z: "js_and elementCount 1 = 0" by (simp add: js_and_1)
    have shr: "js_shr elementCount 1 = elementCount div 2"
      using "1.prems" b32 by (simp add: js_shr_def js_toUint32_def)
    have pos: "0 < elementCount div 2" using False "1.prems" by presburger
    have "2 ^ (32 - shifts) = (2::int) * 2 ^ (32 - Suc shifts)"
      using lt32 by (metis Suc_diff_Suc power_Suc)
    then have ub: "elementCount div 2 < 2 ^ (32 - Suc shifts)"
      using "1.prems" by simp
    have "getMinimumIndex_from (Suc shifts) (elementCount div 2)
          = Some (js_toInt32 ((elementCount div 2 AND (elementCount div 2 - 1)) * 2 ^ Suc shifts))"
      using "1.IH" [OF lt32] z shr pos ub lt32 by simp
    then show ?thesis using lt32 z shr False
      by (simp add: unfold and_pred_even [of elementCount] mult.assoc mult.commute mult.left_commute)
  qed
qed

text \<open>
  C6, as the code has it. For every \<open>elementCount\<close> from 1 to \<open>2^32 - 1\<close> the function
  returns a value: \<open>elementCount\<close> with its lowest set bit cleared (\<open>elementCount AND
  (elementCount - 1)\<close>), read as a signed 32-bit integer as \<open><<\<close> yields it, which is that
  value itself whenever \<open>elementCount < 2^31\<close>; the value is strictly less than
  \<open>elementCount\<close>.
\<close>

theorem getMinimumIndex_clears_lowest_set_bit:
  assumes "1 \<le> elementCount" "elementCount < 2 ^ 32"
  shows "getMinimumIndex elementCount = Some (js_toInt32 (elementCount AND (elementCount - 1)))
       \<and> (elementCount < 2 ^ 31 \<longrightarrow>
            getMinimumIndex elementCount = Some (elementCount AND (elementCount - 1)))
       \<and> (\<exists>r. getMinimumIndex elementCount = Some r \<and> r < elementCount)"
proof -
  have g: "getMinimumIndex elementCount = Some (js_toInt32 (elementCount AND (elementCount - 1)))"
    using getMinimumIndex_from_eq [of elementCount 0] assms by (simp add: getMinimumIndex_def)
  have nn: "0 \<le> elementCount AND (elementCount - 1)" using assms by simp
  have le: "elementCount AND (elementCount - 1) \<le> elementCount - 1"
    using assms by (intro AND_upper2) simp
  have "js_toInt32 (elementCount AND (elementCount - 1)) = elementCount AND (elementCount - 1)"
    if "elementCount < 2 ^ 31"
    by (rule toInt32_id) (use nn le that in linarith)+
  moreover have "js_toInt32 (elementCount AND (elementCount - 1)) < elementCount"
    using toInt32_le [OF nn] le by linarith
  ultimately show ?thesis using g by simp
qed

theorem getMinimumIndex_clears_lowest_set_bit_witness:
  "(1::int) \<le> 11 \<and> (11::int) < 2 ^ 32 \<and> getMinimumIndex 11 = Some 10 \<and> (10::int) < 11"
  using getMinimumIndex_clears_lowest_set_bit [of 11]
  by (simp add: js_toInt32_def)

text \<open>
  C6, as the claim states it, fails at \<open>elementCount = 0\<close>: no bit is set, the loop runs
  out and the function returns no value. It also fails from \<open>2^31\<close> on wherever bit 31
  survives: \<open><<\<close> yields a signed result.
\<close>

theorem getMinimumIndex_zero_undefined:
  "getMinimumIndex 0 = None \<and> getMinimumIndex 0xC0000000 = Some (- 2147483648)"
  by (simp add: getMinimumIndex_def getMinimumIndex_from.simps js_defs)

section \<open>verifyMultiProof: failure by \<open>false\<close>, and the empty proof\<close>

lemma verify_queue_Nil: "verify_queue leafCount indices [] = []"
  by (simp add: verify_queue_def)

lemma verify_loop_Nil: "verify_loop keccak root [] decommits = Inl AssertionError"
  by (subst verify_loop.simps) simp

lemma verify_loop_Cons:
  "verify_loop keccak root ((index, val) # rest) decommits =
     (if index = Some 1 then buffer_equals val root
      else (case verify_merge keccak index val rest decommits of
              Inl e \<Rightarrow> Inl e
            | Inr (queue', decommits') \<Rightarrow> verify_loop keccak root queue' decommits'))"
  by (subst verify_loop.simps) simp

lemma verify_loop_after:
  "verify_after keccak n queue decommits = Some (queue', decommits') \<Longrightarrow>
     verify_loop keccak root queue decommits = verify_loop keccak root queue' decommits'"
proof (induction n arbitrary: queue decommits)
  case 0
  then show ?case by simp
next
  case (Suc n)
  from Suc.prems obtain index val rest where q: "queue = (index, val) # rest"
    by (cases queue) auto
  from Suc.prems q have ne: "index \<noteq> Some 1" by (auto split: if_splits)
  from Suc.prems q ne obtain q1 d1
    where m: "verify_merge keccak index val rest decommits = Inr (q1, d1)"
      and a: "verify_after keccak n q1 d1 = Some (queue', decommits')"
    by (auto split: sum.splits)
  have "verify_loop keccak root queue decommits = verify_loop keccak root q1 d1"
    using q ne m by (simp add: verify_loop_Cons)
  with Suc.IH [OF a] show ?case by simp
qed

text \<open>
  C9. When the mixed-root check yields \<open>false\<close>, \<open>verifyMultiProof\<close> returns \<open>false\<close>, whatever
  the values and decommitments are. When the check passes and the loop, after any number
  of merges, takes an entry of tree index 1 off the queue whose value \<open>v\<close> differs from
  the expected root \<open>r\<close>, it returns \<open>false\<close>. In neither case does it throw.
\<close>

theorem verifyMultiProof_failure_is_false:
  "(validateMixedRoot keccak mixedRoot root leafCount = Inr False \<longrightarrow>
      verifyMultiProof keccak mixedRoot root leafCount indices vals decommitments = Inr False)
   \<and> (validateMixedRoot keccak mixedRoot root leafCount = Inr True \<and> root = Some r \<and>
       verify_after keccak n (verify_queue leafCount indices vals) decommitments
         = Some ((Some 1, Some v) # queue, decommits) \<and> v \<noteq> r \<longrightarrow>
      verifyMultiProof keccak mixedRoot root leafCount indices vals decommitments = Inr False)"
proof (intro conjI impI)
  assume "validateMixedRoot keccak mixedRoot root leafCount = Inr False"
  then show "verifyMultiProof keccak mixedRoot root leafCount indices vals decommitments = Inr False"
    by (simp add: verifyMultiProof_def)
next
  assume h: "validateMixedRoot keccak mixedRoot root leafCount = Inr True \<and> root = Some r \<and>
       verify_after keccak n (verify_queue leafCount indices vals) decommitments
         = Some ((Some 1, Some v) # queue, decommits) \<and> v \<noteq> r"
  then have "verify_after keccak n (verify_queue leafCount indices vals) decommitments
               = Some ((Some 1, Some v) # queue, decommits)"
    by simp
  then have "verify_loop keccak root (verify_queue leafCount indices vals) decommitments
             = verify_loop keccak root ((Some 1, Some v) # queue) decommits"
    by (rule verify_loop_after)
  also have "\<dots> = Inr False"
    using h by (simp add: verify_loop_Cons buffer_equals_def)
  finally have "verify_loop keccak root (verify_queue leafCount indices vals) decommitments
                = Inr False" .
  moreover from h have "validateMixedRoot keccak mixedRoot root leafCount = Inr True" by blast
  ultimately
  show "verifyMultiProof keccak mixedRoot root leafCount indices vals decommitments = Inr False"
    by (simp add: verifyMultiProof_def)
qed

text \<open>
  A two-leaf tree over the identity digest: the proof of leaf 0, with leaf 1 as its
  decommitment, but a tampered value. The first case of the theorem is witnessed by a
  wrong mixed root.
\<close>

theorem verifyMultiProof_failure_is_false_witness:
  "validateMixedRoot id (Some [9]) (Some [1, 2]) 2 = Inr False
   \<and> verifyMultiProof id (Some [9]) (Some [1, 2]) 2 [0] [Some [1]] [Some [2]] = Inr False
   \<and> validateMixedRoot id (Some (to32ByteBuffer 2 @ [1, 2])) (Some [1, 2]) 2 = Inr True
   \<and> verify_after id 1 (verify_queue 2 [0] [Some [7]]) [Some [2]]
        = Some ([(Some 1, Some [7, 2])], [])
   \<and> verifyMultiProof id (Some (to32ByteBuffer 2 @ [1, 2])) (Some [1, 2]) 2 [0] [Some [7]] [Some [2]]
        = Inr False"
proof -
  have a: "validateMixedRoot id (Some [9]) (Some [1, 2]) 2 = Inr False"
    by (simp add: validateMixedRoot_def hashNode_def buffer_equals_def)
  have b: "validateMixedRoot id (Some (to32ByteBuffer 2 @ [1, 2])) (Some [1, 2]) 2 = Inr True"
    by (simp add: validateMixedRoot_def hashNode_def buffer_equals_def)
  have c: "verify_after id 1 (verify_queue 2 [0] [Some [7]]) [Some [2]]
             = Some ([(Some 1, Some [7, 2])], [])"
    by (simp add: verify_queue_def verify_merge_def hashNode_def js_shift_def index_halved_def
        js_defs)
  from verifyMultiProof_failure_is_false
         [where keccak = id and mixedRoot = "Some [9]" and root = "Some [1, 2]" and leafCount = 2
            and indices = "[0]" and vals = "[Some [1]]" and decommitments = "[Some [2]]"] a
  have d: "verifyMultiProof id (Some [9]) (Some [1, 2]) 2 [0] [Some [1]] [Some [2]] = Inr False"
    by blast
  from verifyMultiProof_failure_is_false
         [where keccak = id and mixedRoot = "Some (to32ByteBuffer 2 @ [1, 2])"
            and root = "Some [1, 2]" and leafCount = 2 and r = "[1, 2]" and n = 1
            and indices = "[0]" and vals = "[Some [7]]" and decommitments = "[Some [2]]"
            and v = "[7, 2]" and queue = "[]" and decommits = "[]"] b c
  have e: "verifyMultiProof id (Some (to32ByteBuffer 2 @ [1, 2])) (Some [1, 2]) 2 [0] [Some [7]]
             [Some [2]] = Inr False"
    by simp
  from a b c d e show ?thesis by blast
qed

text \<open>
  C10. With an empty list of values (and so of indices) that passes the mixed-root
  check, the queue starts empty and the first assertion of the loop fails: the function
  throws \<open>'Something went wrong.'\<close> and returns no boolean.
\<close>

theorem verifyMultiProof_empty_asserts:
  assumes "validateMixedRoot keccak mixedRoot root leafCount = Inr True"
  shows "verifyMultiProof keccak mixedRoot root leafCount [] [] decommitments = Inl AssertionError"
  using assms by (simp add: verifyMultiProof_def verify_queue_Nil verify_loop_Nil)

theorem verifyMultiProof_empty_asserts_witness:
  "validateMixedRoot id (Some (to32ByteBuffer 4 @ [8])) (Some [8]) 4 = Inr True
   \<and> verifyMultiProof id (Some (to32ByteBuffer 4 @ [8])) (Some [8]) 4 [] [] [Some [5]]
       = Inl AssertionError"
proof -
  have a: "validateMixedRoot id (Some (to32ByteBuffer 4 @ [8])) (Some [8]) 4 = Inr True"
    by (simp add: validateMixedRoot_def hashNode_def buffer_equals_def)
  from verifyMultiProof_empty_asserts [OF a] a show ?thesis by blast
qed

section \<open>to32ByteBuffer is the 32-byte big-endian encoding\<close>

lemma unhex_hexDigit: "d < 16 \<Longrightarrow> unhex (hexDigit d) = Some d"
  by (auto simp: unhex_def hexDigit_def Let_def of_char_of)

lemma unhex_less: "unhex c = Some x \<Longrightarrow> x < 16"
  by (auto simp: unhex_def Let_def split: if_splits)

lemma unhex_zero: "unhex CHR ''0'' = Some 0"
  by (simp add: unhex_def)

lemma leftPad_eq: "leftPad s sz c = replicate (sz - length s) c @ s"
proof (induction s sz c rule: leftPad.induct)
  case (1 s sz c)
  show ?case
  proof (cases "length s < sz")
    case True
    then have "sz - length s = Suc (sz - length (c # s))" by simp
    with True "1.IH" show ?thesis
      by (subst leftPad.simps) (simp add: replicate_app_Cons_same)
  next
    case False
    then show ?thesis by (subst leftPad.simps) simp
  qed
qed

lemma toHex_valid: "\<forall>c \<in> set (toHex n). unhex c \<noteq> None"
proof (induction n rule: toHex.induct)
  case (1 n)
  show ?case
  proof (cases "n < 16")
    case True
    then show ?thesis by (subst toHex.simps) (simp add: unhex_hexDigit)
  next
    case False
    with "1.IH" show ?thesis by (subst toHex.simps) (simp add: unhex_hexDigit)
  qed
qed

lemma hexValue_snoc: "hexValue (s @ [c]) = 16 * hexValue s + the (unhex c)"
  by (simp add: hexValue_def)

lemma hexValue_toHex: "hexValue (toHex n) = n"
proof (induction n rule: toHex.induct)
  case (1 n)
  show ?case
  proof (cases "n < 16")
    case True
    then show ?thesis by (subst toHex.simps) (simp add: hexValue_def unhex_hexDigit)
  next
    case False
    with "1.IH" show ?thesis
      by (subst toHex.simps) (simp add: hexValue_snoc unhex_hexDigit)
  qed
qed

lemma length_toHex: "0 < k \<Longrightarrow> n < 16 ^ k \<Longrightarrow> length (toHex n) \<le> k"
proof (induction n arbitrary: k rule: toHex.induct)
  case (1 n)
  show ?case
  proof (cases "n < 16")
    case True
    with "1.prems" show ?thesis by (subst toHex.simps) simp
  next
    case False
    with "1.prems" obtain j where k: "k = Suc j" by (cases k) auto
    with False "1.prems" have "0 < j" by (cases j) auto
    moreover from k "1.prems" have "n div 16 < 16 ^ j"
      by (simp add: less_mult_imp_div_less mult.commute)
    ultimately have "length (toHex (n div 16)) \<le> j" using "1.IH" False by simp
    with False k show ?thesis by (subst toHex.simps) simp
  qed
qed

lemma hexValue_zeros: "hexValue (replicate k CHR ''0'' @ s) = hexValue s"
proof -
  have "foldl (\<lambda>acc c. 16 * acc + the (unhex c)) 0 (replicate k CHR ''0'') = 0"
    by (induction k) (simp_all add: unhex_zero)
  then show ?thesis by (simp add: hexValue_def)
qed

lemma hexDecode_valid:
  "even (length s) \<Longrightarrow> \<forall>c \<in> set s. unhex c \<noteq> None \<Longrightarrow>
     length (hexDecode s) = length s div 2
     \<and> foldl (\<lambda>acc b. 256 * acc + unat b) a (hexDecode s)
         = foldl (\<lambda>acc c. 16 * acc + the (unhex c)) a s"
proof (induction s arbitrary: a rule: hexDecode.induct)
  case (1 c d rest)
  from "1.prems" obtain x y where x: "unhex c = Some x" and y: "unhex d = Some y" by auto
  have "16 * x + y < 256" using unhex_less [OF x] unhex_less [OF y] by simp
  then have u: "unat (of_nat (16 * x + y) :: 8 word) = 16 * x + y"
    unfolding unat_of_nat by simp
  define acc where "acc = 16 * (16 * a + x) + y"
  have acc: "256 * a + (16 * x + y) = acc" by (simp add: acc_def)
  have dec: "hexDecode (c # d # rest) = of_nat (16 * x + y) # hexDecode rest"
    using x y by simp
  have left: "foldl (\<lambda>acc b. 256 * acc + unat b) a (hexDecode (c # d # rest))
              = foldl (\<lambda>acc b. 256 * acc + unat b) acc (hexDecode rest)"
    unfolding dec foldl_Cons u acc ..
  have right: "foldl (\<lambda>acc c. 16 * acc + the (unhex c)) a (c # d # rest)
               = foldl (\<lambda>acc c. 16 * acc + the (unhex c)) acc rest"
    using x y by (simp add: acc_def)
  have "length (hexDecode rest) = length rest div 2
        \<and> foldl (\<lambda>acc b. 256 * acc + unat b) acc (hexDecode rest)
            = foldl (\<lambda>acc c. 16 * acc + the (unhex c)) acc rest"
    using "1.IH" [OF refl x y] "1.prems" by simp
  then show ?case unfolding left right using dec by simp
qed simp_all

text \<open>
  C8, as the code has it: \<open>to32ByteBuffer\<close> has no failure mode of its own. For every
  integer \<open>n\<close> with \<open>0 \<le> n < 2^256\<close> it returns the buffer of exactly 32 bytes whose
  big-endian value is \<open>n\<close>.
\<close>

theorem to32ByteBuffer_big_endian:
  assumes "0 \<le> n" "n < 2 ^ 256"
  shows "length (to32ByteBuffer n) = 32 \<and> int (bigEndian (to32ByteBuffer n)) = n"
proof -
  define m where "m = nat n"
  have m: "m < 16 ^ 64" using assms unfolding m_def by (simp add: nat_less_iff)
  define s where "s = replicate (64 - length (toHex m)) CHR ''0'' @ toHex m"
  have len: "length (toHex m) \<le> 64" using length_toHex [of 64 m] m by simp
  then have ls: "length s = 64" by (simp add: s_def)
  have valid: "\<forall>c \<in> set s. unhex c \<noteq> None"
    using toHex_valid [of m] by (auto simp: s_def unhex_zero)
  have buf: "to32ByteBuffer n = hexDecode s"
    using assms by (simp add: to32ByteBuffer_def toString16_def leftPad_eq s_def m_def)
  have "length (hexDecode s) = length s div 2 \<and> bigEndian (hexDecode s) = hexValue s"
    unfolding bigEndian_def hexValue_def by (rule hexDecode_valid) (use ls valid in simp_all)
  moreover have "hexValue s = m" by (simp add: s_def hexValue_zeros hexValue_toHex)
  ultimately show ?thesis using buf ls assms by (simp add: m_def)
qed

theorem to32ByteBuffer_big_endian_witness:
  "(0::int) \<le> 4 \<and> (4::int) < 2 ^ 256 \<and> length (to32ByteBuffer 4) = 32
   \<and> int (bigEndian (to32ByteBuffer 4)) = 4"
  using to32ByteBuffer_big_endian [of 4] by simp

text \<open>
  C8, as the claim states it, fails: no \<open>DomainError\<close> is ever raised. For \<open>-1\<close> the padded
  string is 62 zeros followed by \<open>-1\<close>, and the decoder stops at the minus sign: the
  result is a buffer of 31 zero bytes.
\<close>

theorem to32ByteBuffer_negative_returns:
  "to32ByteBuffer (- 1) = replicate 31 0"
  by code_simp

section \<open>The two encodings of a flag proof agree\<close>

lemma bitCheck_iff:
  fixes w :: "256 word"
  assumes "i < 256"
  shows "(w AND push_bit i 1 = push_bit i 1) \<longleftrightarrow> bit w i"
proof
  assume "w AND push_bit i 1 = push_bit i 1"
  moreover have "push_bit i (1 :: 256 word) \<noteq> 0"
    using assms by (simp add: push_bit_eq_0_iff)
  ultimately show "bit w i" by (simp add: bit_iff_and_push_bit_not_eq_0)
next
  assume "bit w i"
  then show "w AND push_bit i 1 = push_bit i 1"
    by (intro bit_eqI) (auto simp: bit_simps)
qed

lemma getRootBits_loop_unfold:
  assumes "i < 256"
  shows "getRootBits_loop hashFunction leafs flagBits skipBits decommitments (push_bit i 1) st =
     (if bit skipBits i then
        (if bit flagBits i then Inr st
         else getRootBits_loop hashFunction leafs flagBits skipBits decommitments
                (push_bit (Suc i) 1) (skipStep leafs st))
      else (case combineStep hashFunction leafs decommitments (bit flagBits i) st of
              Inl e \<Rightarrow> Inl e
            | Inr st' \<Rightarrow>
                getRootBits_loop hashFunction leafs flagBits skipBits decommitments
                  (push_bit (Suc i) 1) st'))"
proof -
  have shift: "push_bit 1 (push_bit i (1 :: 256 word)) = push_bit (Suc i) 1"
    by simp
  show ?thesis
    by (subst getRootBits_loop.simps) (simp only: bitCheck_iff [OF assms] Let_def shift)
qed

lemma getRootBits_loop_eq_Booleans:
  assumes "length flags = n" "n < 256"
    and "\<forall>i<n. bit flagBits i = flags ! i"
    and "\<forall>i<n. bit skipBits i = truthy_at skips i"
    and "\<forall>i<n. \<not> (flags ! i \<and> truthy_at skips i)"
    and "bit flagBits n" "bit skipBits n"
  shows "i \<le> n \<Longrightarrow>
     getRootBits_loop hashFunction leafs flagBits skipBits decommitments (push_bit i 1) st
     = getRootBooleans_loop hashFunction leafs flags skips decommitments i st"
proof (induction "n - i" arbitrary: i st)
  case 0
  then have i: "i = n" by simp
  have "i < 256" using i assms(2) by simp
  from getRootBits_loop_unfold [OF this] show ?case
    using i assms(1,6,7) by (subst getRootBooleans_loop.simps) simp
next
  case (Suc k)
  then have lt: "i < n" by simp
  then have i256: "i < 256" using assms(2) by simp
  have next_i: "Suc i \<le> n" "k = n - Suc i" using Suc lt by simp_all
  have IH: "getRootBits_loop hashFunction leafs flagBits skipBits decommitments
              (push_bit (Suc i) 1) st'
            = getRootBooleans_loop hashFunction leafs flags skips decommitments (Suc i) st'"
    for st'
    using Suc.hyps(1) [OF next_i(2) next_i(1)] .
  have f: "bit flagBits i = flags ! i" using assms(3) lt by simp
  have s: "bit skipBits i = truthy_at skips i" using assms(4) lt by simp
  have ns: "\<not> (flags ! i \<and> truthy_at skips i)" using assms(5) lt by simp
  show ?case
    unfolding getRootBits_loop_unfold [OF i256] IH f s
    using lt assms(1) ns by (subst getRootBooleans_loop.simps) simp
qed

text \<open>
  C2. A proof is expressible in both encodings when the boolean arrays \<open>flags\<close> and
  \<open>skips\<close> have the same length \<open>n\<close>, below the 256 positions of a 32-byte word; the bit
  vectors agree with them on positions \<open>0..n-1\<close>; position \<open>n\<close> carries the end sentinel
  (both bits set); and no earlier position does, for there the packed form would end.
  On such a pair, with the same leafs, element count, decommitments and hash function,
  both functions reach the same final state (so they record the same append
  decommitments) and return the same result: the same root, or the same error.
\<close>

theorem getRootBits_equals_getRootBooleans:
  assumes "length flags = n" "length skips = n" "n < 256"
    and "\<forall>i<n. bit flagBits i = flags ! i"
    and "\<forall>i<n. bit skipBits i = skips ! i"
    and "\<forall>i<n. \<not> (flags ! i \<and> skips ! i)"
    and "bit flagBits n" "bit skipBits n"
  shows "getRootBits_run hashFunction leafs elementCount flagBits skipBits decommitments
         = getRootBooleans_run hashFunction leafs elementCount flags skips decommitments
       \<and> getRootBits hashFunction leafs elementCount flagBits skipBits decommitments
         = getRootBooleans hashFunction leafs elementCount flags skips decommitments"
proof -
  have t: "\<forall>i<n. truthy_at skips i = skips ! i" using assms(2) by (simp add: truthy_at_def)
  have "getRootBits_loop hashFunction leafs flagBits skipBits decommitments (push_bit 0 1) st
        = getRootBooleans_loop hashFunction leafs flags skips decommitments 0 st" for st
    by (rule getRootBits_loop_eq_Booleans [where n = n]) (use assms t in simp_all)
  then have "getRootBits_run hashFunction leafs elementCount flagBits skipBits decommitments
         = getRootBooleans_run hashFunction leafs elementCount flags skips decommitments"
    by (simp add: getRootBits_run_def getRootBooleans_run_def split: sum.splits)
  then show ?thesis by (simp add: getRootBits_def getRootBooleans_def)
qed

text \<open>
  The proof of the last of three leaves: skip on the bottom level, then a combination
  with a decommitment; flags \<open>[0, 0]\<close> and skips \<open>[1, 0]\<close>, packed with the sentinel at
  position 2 as \<open>0b100\<close> and \<open>0b101\<close>. The hash is symmetric in its arguments, as the sorted hash
  of the library's trees is.
\<close>

theorem getRootBits_equals_getRootBooleans_witness:
  "getRootBits (\<lambda>a b. [sum_list a + sum_list b]) [Some [5]] 3 4 5 [Some [9]] = Inr [14]
   \<and> getRootBooleans (\<lambda>a b. [sum_list a + sum_list b]) [Some [5]] 3
        [False, False] [True, False] [Some [9]] = Inr [14]"
proof -
  have b: "getRootBooleans (\<lambda>a b. [sum_list a + sum_list b]) [Some [5]] 3
        [False, False] [True, False] [Some [9]] = Inr [14]"
    by code_simp
  have h: "\<forall>i<2. bit (4 :: 256 word) i = [False, False] ! i"
          "\<forall>i<2. bit (5 :: 256 word) i = [True, False] ! i"
          "\<forall>i<2. \<not> ([False, False] ! i \<and> [True, False] ! i)"
          "bit (4 :: 256 word) 2" "bit (5 :: 256 word) 2"
    by (simp_all add: less_Suc_eq numeral_2_eq_2 bit_numeral_simps)
  from getRootBits_equals_getRootBooleans
         [where n = 2 and flags = "[False, False]" and skips = "[True, False]"
            and flagBits = 4 and skipBits = 5, OF _ _ _ h]
  have "getRootBits (\<lambda>a b. [sum_list a + sum_list b]) [Some [5]] 3 4 5 [Some [9]]
        = getRootBooleans (\<lambda>a b. [sum_list a + sum_list b]) [Some [5]] 3
            [False, False] [True, False] [Some [9]]"
    by simp
  with b show ?thesis by simp
qed

section \<open>Facts about arrays and the steps of the flag loops\<close>

lemma js_nth_js_set: "js_nth (js_set xs i v) k = (if k = i then v else js_nth xs k)"
  by (auto simp: js_nth_def js_set_def nth_append)


lemma js_nth_replicate_None: "js_nth (replicate n None) k = None"
  by (simp add: js_nth_def)

lemma js_nth_resized: "k < n \<Longrightarrow> js_nth (js_resized n xs) k = js_nth xs k"
  by (simp add: js_resized_def js_nth_def)


section \<open>Invariants of the two proof loops\<close>



section \<open>The append decommitments are filled from the back\<close>







section \<open>The recorded slots hold buffers\<close>











section \<open>The cross-check of the inferred append proof\<close>

text \<open>
  C3. When \<open>elementCount\<close> needs more than one append decommitment, \<open>getRootBooleans\<close> and
  \<open>getRootBits\<close> are to fail with \<open>'Invalid Proof.'\<close> exactly when the accumulated append
  root \<open>hash\<close> differs from the final root. The code does not keep to this: its
  assertion skips the comparison whenever the cursor \<open>appendDecommitmentIndex\<close> has ended
  at 1, whatever \<open>elementCount\<close> is. For \<open>elementCount = 5\<close>, which needs two append
  decommitments, and the last leaf \<open>[5]\<close> beside the subtree \<open>[10]\<close>, the proof that skips
  one level instead of two is accepted with the root \<open>[15]\<close>: the cursor has ended at 1,
  one of the two decommitments has been recorded, and \<open>hash\<close> is \<open>[5]\<close>, not the root.
  The honest proof, which skips two levels, ends with the cursor at 0, both
  decommitments recorded and \<open>hash\<close> equal to the root. \<open>getNewRootBooleans\<close> and
  \<open>getNewRootBits\<close> accept the short proof as well and compute the new root of an update
  and append from the incomplete decommitments: \<open>[72]\<close>, where the honest proof gives
  \<open>[66]\<close>. The hash here adds up the bytes of its two arguments.
\<close>

theorem crossCheck_skipped_on_unbalanced_tree:
  "bitCount32 5 = 2
   \<and> getRootBooleans (\<lambda>a b. [sum_list a + sum_list b]) [Some [5]] 5
        [False, False] [True, False] [Some [10]] = Inr [15]
   \<and> map_sum id (\<lambda>st. (appendDecommitmentIndex st, hash st, appendDecommitments st))
        (getRootBooleans_run (\<lambda>a b. [sum_list a + sum_list b]) [Some [5]] 5
           [False, False] [True, False] [Some [10]])
       = Inr (1, Some [5], [None, Some [5]])
   \<and> getRootBits (\<lambda>a b. [sum_list a + sum_list b]) [Some [5]] 5 4 5 [Some [10]] = Inr [15]
   \<and> map_sum id (\<lambda>st. (appendDecommitmentIndex st, hash st, appendDecommitments st))
        (getRootBits_run (\<lambda>a b. [sum_list a + sum_list b]) [Some [5]] 5 4 5 [Some [10]])
       = Inr (1, Some [5], [None, Some [5]])
   \<and> getRootBooleans (\<lambda>a b. [sum_list a + sum_list b]) [Some [5]] 5
        [False, False, False] [True, True, False] [Some [10]] = Inr [15]
   \<and> map_sum id (\<lambda>st. (appendDecommitmentIndex st, hash st, appendDecommitments st))
        (getRootBooleans_run (\<lambda>a b. [sum_list a + sum_list b]) [Some [5]] 5
           [False, False, False] [True, True, False] [Some [10]])
       = Inr (0, Some [15], [Some [10], Some [5]])
   \<and> getNewRootBooleans (\<lambda>a b. [sum_list a + sum_list b]) [Some [5]] [Some [6]] [Some [50]] 5
        [False, False] [True, False] [Some [10]] = Inr ([15], Some [72])
   \<and> getNewRootBits (\<lambda>a b. [sum_list a + sum_list b]) [Some [5]] [Some [6]] [Some [50]] 5
        4 5 [Some [10]] = Inr ([15], Some [72])
   \<and> getNewRootBooleans (\<lambda>a b. [sum_list a + sum_list b]) [Some [5]] [Some [6]] [Some [50]] 5
        [False, False, False] [True, True, False] [Some [10]] = Inr ([15], Some [66])"
  by code_simp

section \<open>How many append decommitments a run records\<close>




section \<open>No comparison of lengths\<close>

lemma truthy_at_normalised:
  "i < n \<Longrightarrow> truthy_at (map (truthy_at skips) [0 ..< n]) i = truthy_at skips i"
  by (simp add: truthy_at_def)

lemma getRootBooleans_loop_skips:
  "getRootBooleans_loop hashFunction leafs flags (map (truthy_at skips) [0 ..< length flags])
     decommitments i st
   = getRootBooleans_loop hashFunction leafs flags skips decommitments i st"
proof (induction hashFunction leafs flags skips decommitments i st
       rule: getRootBooleans_loop.induct)
  case (1 hashFunction leafs flags skips decommitments i st)
  show ?case
  proof (cases "i < length flags")
    case False
    then show ?thesis
      by (subst getRootBooleans_loop.simps, subst (2) getRootBooleans_loop.simps) simp
  next
    case True
    note t = truthy_at_normalised [OF True, of skips]
    show ?thesis
    proof (cases "truthy_at skips i")
      case skipped: True
      with True t "1.IH"(1) [OF True skipped] show ?thesis
        by (subst getRootBooleans_loop.simps, subst (2) getRootBooleans_loop.simps) simp
    next
      case combined: False
      with True t "1.IH"(2) [OF True combined] show ?thesis
        by (subst getRootBooleans_loop.simps, subst (2) getRootBooleans_loop.simps)
           (simp split: sum.splits)
    qed
  qed
qed

lemma updateSkipStep_resized:
  "readIndex st < length leafs \<Longrightarrow>
     updateSkipStep leafs (js_resized (length leafs) updateLeafs) st
     = updateSkipStep leafs updateLeafs st"
  by (simp add: updateSkipStep_def Let_def js_nth_resized)

lemma updateSkipStep_readIndex:
  "leafs \<noteq> [] \<Longrightarrow> readIndex (updateSkipStep leafs updateLeafs st) < length leafs"
  by (simp add: updateSkipStep_def Let_def)

lemma updateCombineStep_resized:
  assumes "readIndex st < length leafs"
  shows "updateCombineStep hashFunction leafs (js_resized (length leafs) updateLeafs)
           decommitments flag st
         = updateCombineStep hashFunction leafs updateLeafs decommitments flag st"
proof -
  from assms have pos: "0 < length leafs" by linarith
  then have m: "k mod length leafs < length leafs" for k by simp
  show ?thesis
    unfolding updateCombineStep_def Let_def
    by (simp only: js_nth_resized [OF m] js_nth_resized [OF assms])
qed

lemma updateCombineStep_readIndex:
  "leafs \<noteq> [] \<Longrightarrow>
     updateCombineStep hashFunction leafs updateLeafs decommitments flag st = Inr st' \<Longrightarrow>
     readIndex st' < length leafs"
  by (auto simp: updateCombineStep_def Let_def split: sum.splits if_splits)

lemma getNewRootBooleans_loop_resized:
  "readIndex st < length leafs \<Longrightarrow>
     getNewRootBooleans_loop hashFunction leafs (js_resized (length leafs) updateLeafs)
       flags skips decommitments i st
     = getNewRootBooleans_loop hashFunction leafs updateLeafs flags skips decommitments i st"
proof (induction hashFunction leafs updateLeafs flags skips decommitments i st
       rule: getNewRootBooleans_loop.induct)
  case (1 hashFunction leafs updateLeafs flags skips decommitments i st)
  from "1.prems" have ne: "leafs \<noteq> []" by (cases leafs) auto
  show ?case
  proof (cases "i < length flags")
    case False
    then show ?thesis
      by (subst getNewRootBooleans_loop.simps, subst (2) getNewRootBooleans_loop.simps) simp
  next
    case True
    show ?thesis
    proof (cases "truthy_at skips i")
      case skipped: True
      from "1.IH"(1) [OF True skipped updateSkipStep_readIndex [OF ne]] True skipped
      show ?thesis
        by (subst getNewRootBooleans_loop.simps, subst (2) getNewRootBooleans_loop.simps)
           (simp add: updateSkipStep_resized [OF "1.prems"])
    next
      case combined: False
      show ?thesis
      proof (cases "updateCombineStep hashFunction leafs updateLeafs decommitments (flags ! i) st")
        case (Inl e)
        with True combined show ?thesis
          by (subst getNewRootBooleans_loop.simps, subst (2) getNewRootBooleans_loop.simps)
             (simp add: updateCombineStep_resized [OF "1.prems"])
      next
        case (Inr st1)
        from "1.IH"(2) [OF True combined Inr updateCombineStep_readIndex [OF ne Inr]]
          True combined Inr
        show ?thesis
          by (subst getNewRootBooleans_loop.simps, subst (2) getNewRootBooleans_loop.simps)
             (simp add: updateCombineStep_resized [OF "1.prems"])
      qed
    qed
  qed
qed

lemma getNewRootBits_loop_unfold_any:
  "getNewRootBits_loop hashFunction leafs updateLeafs flags skips decommitments bitCheck st =
     (if skips AND bitCheck = bitCheck then
        (if flags AND bitCheck = bitCheck then Inr st
         else getNewRootBits_loop hashFunction leafs updateLeafs flags skips decommitments
                (push_bit 1 bitCheck) (updateSkipStep leafs updateLeafs st))
      else (case updateCombineStep hashFunction leafs updateLeafs decommitments
                   (flags AND bitCheck = bitCheck) st of
              Inl e \<Rightarrow> Inl e
            | Inr st' \<Rightarrow>
                getNewRootBits_loop hashFunction leafs updateLeafs flags skips decommitments
                  (push_bit 1 bitCheck) st'))"
  by (subst getNewRootBits_loop.simps) (simp only: Let_def)

lemma getNewRootBits_loop_resized:
  "readIndex st < length leafs \<Longrightarrow>
     getNewRootBits_loop hashFunction leafs (js_resized (length leafs) updateLeafs)
       flags skips decommitments bitCheck st
     = getNewRootBits_loop hashFunction leafs updateLeafs flags skips decommitments bitCheck st"
proof (induction hashFunction leafs updateLeafs flags skips decommitments bitCheck st
       rule: getNewRootBits_loop.induct)
  case (1 hashFunction leafs updateLeafs flags skips decommitments bitCheck st)
  note IH_skip = "1.IH"(1) [OF refl] and IH_combine = "1.IH"(2) [OF refl]
  from "1.prems" have ne: "leafs \<noteq> []" by (cases leafs) auto
  note unfold = getNewRootBits_loop_unfold_any
                  [of hashFunction leafs _ flags skips decommitments bitCheck st]
  show ?case
  proof (cases "skips AND bitCheck = bitCheck")
    case True
    show ?thesis
    proof (cases "flags AND bitCheck = bitCheck")
      case ended: True
      with True show ?thesis by (simp add: unfold del: One_nat_def)
    next
      case nf: False
      from IH_skip [OF True nf updateSkipStep_readIndex [OF ne]] True nf show ?thesis
        by (simp add: unfold updateSkipStep_resized [OF "1.prems"] del: One_nat_def)
    qed
  next
    case False
    show ?thesis
    proof (cases "updateCombineStep hashFunction leafs updateLeafs decommitments
                    (flags AND bitCheck = bitCheck) st")
      case (Inl e)
      with False show ?thesis
        by (simp add: unfold updateCombineStep_resized [OF "1.prems"] del: One_nat_def)
    next
      case (Inr st1)
      from IH_combine [OF False Inr updateCombineStep_readIndex [OF ne Inr]] False Inr
      show ?thesis
        by (simp add: unfold updateCombineStep_resized [OF "1.prems"] del: One_nat_def)
    qed
  qed
qed

lemma initialUpdateState_readIndex:
  "initialUpdateState leafs appendLeafs elementCount = Inr st \<Longrightarrow> readIndex st = 0"
  by (auto simp: initialUpdateState_def split: if_splits)

lemma getNewRoot_finish_resized:
  "leafs \<noteq> [] \<Longrightarrow>
     getNewRoot_finish hashFunction signedShift leafs (js_resized (length leafs) updateLeafs)
       appendLeafs elementCount st
     = getNewRoot_finish hashFunction signedShift leafs updateLeafs appendLeafs elementCount st"
  by (simp add: getNewRoot_finish_def checkOldRoot_def newRoot_def js_nth_resized)

text \<open>
  C7, as the code has it. No function compares lengths, and none has an error for a
  mismatch. \<open>getRootBooleans\<close> runs over the positions of \<open>flags\<close> and reads \<open>skips\<close> at
  those positions only, an entry past the end of \<open>skips\<close> counting as false: its result
  is that for \<open>skips\<close> cut or padded to the length of \<open>flags\<close>. The update variants read
  \<open>updateLeafs\<close> at the positions of \<open>leafs\<close> only, an entry past its end being
  \<open>undefined\<close>: their result is that for \<open>updateLeafs\<close> cut or padded to the length of
  \<open>leafs\<close>. (The flags and skips of the packed variants are two words of the same
  width.)
\<close>

theorem lengths_are_not_compared:
  "getRootBooleans hashFunction leafs elementCount flags skips decommitments
     = getRootBooleans hashFunction leafs elementCount flags
         (map (truthy_at skips) [0 ..< length flags]) decommitments
   \<and> (leafs \<noteq> [] \<longrightarrow>
        getNewRootBooleans hashFunction leafs updateLeafs appendLeafs elementCount flags skips
          decommitments
        = getNewRootBooleans hashFunction leafs (map (js_nth updateLeafs) [0 ..< length leafs])
            appendLeafs elementCount flags skips decommitments
      \<and> getNewRootBits hashFunction leafs updateLeafs appendLeafs elementCount flagBits skipBits
          decommitments
        = getNewRootBits hashFunction leafs (map (js_nth updateLeafs) [0 ..< length leafs])
            appendLeafs elementCount flagBits skipBits decommitments)"
proof (intro conjI impI)
  show "getRootBooleans hashFunction leafs elementCount flags skips decommitments
     = getRootBooleans hashFunction leafs elementCount flags
         (map (truthy_at skips) [0 ..< length flags]) decommitments"
    unfolding getRootBooleans_def getRootBooleans_run_def getRootBooleans_loop_skips ..
next
  assume ne: "leafs \<noteq> []"
  have run: "getNewRootBooleans_run hashFunction leafs (js_resized (length leafs) updateLeafs)
               appendLeafs elementCount flags skips decommitments
             = getNewRootBooleans_run hashFunction leafs updateLeafs appendLeafs elementCount
                 flags skips decommitments"
    using ne
    by (auto simp: getNewRootBooleans_run_def getNewRootBooleans_loop_resized
        dest: initialUpdateState_readIndex split: sum.splits)
  show "getNewRootBooleans hashFunction leafs updateLeafs appendLeafs elementCount flags skips
          decommitments
        = getNewRootBooleans hashFunction leafs (map (js_nth updateLeafs) [0 ..< length leafs])
            appendLeafs elementCount flags skips decommitments"
    unfolding js_resized_def [symmetric] getNewRootBooleans_def run
    by (simp add: getNewRoot_finish_resized [OF ne] split: sum.splits)
next
  assume ne: "leafs \<noteq> []"
  have run: "getNewRootBits_run hashFunction leafs (js_resized (length leafs) updateLeafs)
               appendLeafs elementCount flagBits skipBits decommitments
             = getNewRootBits_run hashFunction leafs updateLeafs appendLeafs elementCount
                 flagBits skipBits decommitments"
    using ne
    by (auto simp: getNewRootBits_run_def getNewRootBits_loop_resized
        dest: initialUpdateState_readIndex split: sum.splits)
  show "getNewRootBits hashFunction leafs updateLeafs appendLeafs elementCount flagBits skipBits
          decommitments
        = getNewRootBits hashFunction leafs (map (js_nth updateLeafs) [0 ..< length leafs])
            appendLeafs elementCount flagBits skipBits decommitments"
    unfolding js_resized_def [symmetric] getNewRootBits_def run
    by (simp add: getNewRoot_finish_resized [OF ne] split: sum.splits)
qed

theorem lengths_are_not_compared_witness:
  "[Some [1]] \<noteq> ([] :: jsval list)
   \<and> getNewRootBooleans (\<lambda>a b. [sum_list a + sum_list b]) [Some [1]] [Some [2], Some [3]]
        [Some [7]] 1 [] [] []
      = getNewRootBooleans (\<lambda>a b. [sum_list a + sum_list b]) [Some [1]] [Some [2]]
          [Some [7]] 1 [] [] []
   \<and> getNewRootBits (\<lambda>a b. [sum_list a + sum_list b]) [Some [1]] [Some [2], Some [3]]
        [Some [7]] 1 1 1 []
      = getNewRootBits (\<lambda>a b. [sum_list a + sum_list b]) [Some [1]] [Some [2]]
          [Some [7]] 1 1 1 []"
proof -
  have "map (js_nth [Some [2], Some [3]]) [0 ..< length [Some [1 :: 8 word]]]
        = [Some [2 :: 8 word]]"
    by (simp add: js_nth_def)
  with lengths_are_not_compared
         [where leafs = "[Some [1]]" and updateLeafs = "[Some [2], Some [3]]"
            and hashFunction = "\<lambda>a b. [sum_list a + sum_list b]" and appendLeafs = "[Some [7]]"
            and elementCount = 1 and flags = "[]" and skips = "[]" and decommitments = "[]"
            and flagBits = 1 and skipBits = 1]
  show ?thesis by simp
qed

text \<open>
  C7, as the claim states it, fails: with \<open>flags\<close> empty and \<open>skips\<close> of length 1,
  \<open>getRootBooleans\<close> returns the root; with one leaf and two replacement leafs,
  \<open>getNewRootBooleans\<close> returns a pair of roots.
\<close>

theorem length_mismatch_is_accepted:
  "getRootBooleans (\<lambda>a b. [sum_list a + sum_list b]) [Some [1]] 1 [] [True] [] = Inr [1]
   \<and> getNewRootBooleans (\<lambda>a b. [sum_list a + sum_list b]) [Some [1]] [Some [2], Some [3]]
        [Some [7]] 1 [] [] [] = Inr ([1], Some [9])"
  by code_simp

section \<open>Replacing the leafs by themselves\<close>

lemma getNewRootBooleans_loop_invariant:
  "\<lbrakk>\<And>st. P st \<Longrightarrow> P (updateSkipStep leafs updateLeafs st);
    \<And>st flag st'. P st \<Longrightarrow>
       updateCombineStep hashFunction leafs updateLeafs decommitments flag st = Inr st'
       \<Longrightarrow> P st';
    P st;
    getNewRootBooleans_loop hashFunction leafs updateLeafs flags skips decommitments i st
      = Inr st'\<rbrakk>
   \<Longrightarrow> P st'"
proof (induction hashFunction leafs updateLeafs flags skips decommitments i st
       rule: getNewRootBooleans_loop.induct)
  case (1 hashFunction leafs updateLeafs flags skips decommitments i st)
  note unfold = getNewRootBooleans_loop.simps
                  [of hashFunction leafs updateLeafs flags skips decommitments i st]
  show ?case
  proof (cases "i < length flags")
    case False
    with "1.prems"(3,4) unfold show ?thesis by simp
  next
    case True
    show ?thesis
    proof (cases "truthy_at skips i")
      case skipped: True
      from True skipped "1.prems"(4) unfold
      have "getNewRootBooleans_loop hashFunction leafs updateLeafs flags skips decommitments
              (Suc i) (updateSkipStep leafs updateLeafs st) = Inr st'"
        by simp
      with "1.IH"(1) [OF True skipped] "1.prems"(1,2,3) show ?thesis
        by blast
    next
      case combined: False
      from True combined "1.prems"(4) unfold obtain st1
        where c: "updateCombineStep hashFunction leafs updateLeafs decommitments (flags ! i) st
                  = Inr st1"
          and l: "getNewRootBooleans_loop hashFunction leafs updateLeafs flags skips
                    decommitments (Suc i) st1 = Inr st'"
        by (auto split: sum.splits)
      from "1.prems"(2) [OF "1.prems"(3) c] have "P st1" .
      with "1.IH"(2) [OF True combined c] l "1.prems"(1,2) show ?thesis
        by blast
    qed
  qed
qed

lemma getNewRootBits_loop_invariant:
  "\<lbrakk>\<And>st. P st \<Longrightarrow> P (updateSkipStep leafs updateLeafs st);
    \<And>st flag st'. P st \<Longrightarrow>
       updateCombineStep hashFunction leafs updateLeafs decommitments flag st = Inr st'
       \<Longrightarrow> P st';
    P st;
    getNewRootBits_loop hashFunction leafs updateLeafs flags skips decommitments bitCheck st
      = Inr st'\<rbrakk>
   \<Longrightarrow> P st'"
proof (induction hashFunction leafs updateLeafs flags skips decommitments bitCheck st
       rule: getNewRootBits_loop.induct)
  case (1 hashFunction leafs updateLeafs flags skips decommitments bitCheck st)
  note IH_skip = "1.IH"(1) [OF refl] and IH_combine = "1.IH"(2) [OF refl]
  note unfold = getNewRootBits_loop_unfold_any
                  [of hashFunction leafs updateLeafs flags skips decommitments bitCheck st]
  show ?case
  proof (cases "skips AND bitCheck = bitCheck")
    case True
    show ?thesis
    proof (cases "flags AND bitCheck = bitCheck")
      case ended: True
      with True "1.prems"(3,4) unfold show ?thesis by simp
    next
      case nf: False
      with True "1.prems"(4) unfold
      have "getNewRootBits_loop hashFunction leafs updateLeafs flags skips decommitments
              (push_bit 1 bitCheck) (updateSkipStep leafs updateLeafs st) = Inr st'"
        by (simp del: One_nat_def)
      with IH_skip [OF True nf] "1.prems"(1,2,3) show ?thesis by blast
    qed
  next
    case False
    from False "1.prems"(4) unfold obtain st1
      where c: "updateCombineStep hashFunction leafs updateLeafs decommitments
                  (flags AND bitCheck = bitCheck) st = Inr st1"
        and l: "getNewRootBits_loop hashFunction leafs updateLeafs flags skips decommitments
                  (push_bit 1 bitCheck) st1 = Inr st'"
      by (auto simp del: One_nat_def split: sum.splits)
    from "1.prems"(2) [OF "1.prems"(3) c] have "P st1" .
    with IH_combine [OF False c] l "1.prems"(1,2) show ?thesis by blast
  qed
qed

lemma mirrored_initial:
  "initialUpdateState leafs appendLeafs elementCount = Inr st \<Longrightarrow> mirrored st"
  by (auto simp: initialUpdateState_def mirrored_def js_nth_replicate_None split: if_splits)

lemma mirrored_updateSkipStep: "mirrored st \<Longrightarrow> mirrored (updateSkipStep leafs leafs st)"
  by (simp add: mirrored_def updateSkipStep_def Let_def js_nth_js_set)

lemma mirrored_updateCombineStep:
  "mirrored st \<Longrightarrow> updateCombineStep hashFunction leafs leafs decommitments flag st = Inr st'
     \<Longrightarrow> mirrored st'"
  by (auto simp: mirrored_def updateCombineStep_def Let_def js_nth_js_set
      split: sum.splits if_splits)

lemma mirrored_roots: "mirrored st \<Longrightarrow> newRoot leafs leafs st = oldRoot leafs st"
  by (simp add: mirrored_def newRoot_def oldRoot_def js_nth_int_def)

lemma getNewRoot_finish_root:
  "getNewRoot_finish hashFunction signedShift leafs updateLeafs appendLeafs elementCount st
     = Inr (r, n) \<Longrightarrow> oldRoot leafs st = Some r"
  by (auto simp: getNewRoot_finish_def split: sum.splits option.splits)

text \<open>
  C5, as the code has it. When the replacement leafs are the leafs themselves, the new
  root that the update loop computes (the \<open>newRoot\<close> of the source, which it records as
  the one append decommitment of a balanced tree) is the old root, in both encodings; so
  when the function returns, that new root is the \<open>root\<close> it returns. The \<open>newRoot\<close> it
  returns is another value: the outcome of the append pass over \<open>appendLeafs\<close>.
\<close>

theorem noop_update_keeps_root:
  "(getNewRootBooleans_run hashFunction leafs leafs appendLeafs elementCount flags skips
      decommitments = Inr st
    \<longrightarrow> newRoot leafs leafs st = oldRoot leafs st)
   \<and> (getNewRootBooleans hashFunction leafs leafs appendLeafs elementCount flags skips
        decommitments = Inr (r, n)
      \<longrightarrow> (\<exists>st. getNewRootBooleans_run hashFunction leafs leafs appendLeafs elementCount flags
                   skips decommitments = Inr st
               \<and> newRoot leafs leafs st = Some r))
   \<and> (getNewRootBits_run hashFunction leafs leafs appendLeafs elementCount flagBits skipBits
        decommitments = Inr st
      \<longrightarrow> newRoot leafs leafs st = oldRoot leafs st)
   \<and> (getNewRootBits hashFunction leafs leafs appendLeafs elementCount flagBits skipBits
        decommitments = Inr (r, n)
      \<longrightarrow> (\<exists>st. getNewRootBits_run hashFunction leafs leafs appendLeafs elementCount flagBits
                   skipBits decommitments = Inr st
               \<and> newRoot leafs leafs st = Some r))"
proof -
  have bool: "mirrored st'"
    if "getNewRootBooleans_run hashFunction leafs leafs appendLeafs elementCount flags skips
          decommitments = Inr st'" for st'
    using that unfolding getNewRootBooleans_run_def
    by (auto split: sum.splits
        intro: getNewRootBooleans_loop_invariant [where P = mirrored]
               mirrored_updateSkipStep mirrored_updateCombineStep mirrored_initial)
  have bits: "mirrored st'"
    if "getNewRootBits_run hashFunction leafs leafs appendLeafs elementCount flagBits skipBits
          decommitments = Inr st'" for st'
    using that unfolding getNewRootBits_run_def
    by (auto split: sum.splits
        intro: getNewRootBits_loop_invariant [where P = mirrored]
               mirrored_updateSkipStep mirrored_updateCombineStep mirrored_initial)
  have "\<exists>st. getNewRootBooleans_run hashFunction leafs leafs appendLeafs elementCount flags
               skips decommitments = Inr st \<and> newRoot leafs leafs st = Some r"
    if "getNewRootBooleans hashFunction leafs leafs appendLeafs elementCount flags skips
          decommitments = Inr (r, n)"
  proof -
    from that obtain st'
      where run: "getNewRootBooleans_run hashFunction leafs leafs appendLeafs elementCount flags
                    skips decommitments = Inr st'"
        and fin: "getNewRoot_finish hashFunction False leafs leafs appendLeafs elementCount st'
                  = Inr (r, n)"
      by (auto simp: getNewRootBooleans_def split: sum.splits)
    from mirrored_roots [OF bool [OF run]] getNewRoot_finish_root [OF fin] run
    show ?thesis by auto
  qed
  moreover
  have "\<exists>st. getNewRootBits_run hashFunction leafs leafs appendLeafs elementCount flagBits
               skipBits decommitments = Inr st \<and> newRoot leafs leafs st = Some r"
    if "getNewRootBits hashFunction leafs leafs appendLeafs elementCount flagBits skipBits
          decommitments = Inr (r, n)"
  proof -
    from that obtain st'
      where run: "getNewRootBits_run hashFunction leafs leafs appendLeafs elementCount flagBits
                    skipBits decommitments = Inr st'"
        and fin: "getNewRoot_finish hashFunction True leafs leafs appendLeafs elementCount st'
                  = Inr (r, n)"
      by (auto simp: getNewRootBits_def split: sum.splits)
    from mirrored_roots [OF bits [OF run]] getNewRoot_finish_root [OF fin] run
    show ?thesis by auto
  qed
  ultimately show ?thesis using mirrored_roots [OF bool] mirrored_roots [OF bits] by blast
qed

text \<open>
  The theorem at a two-leaf tree with both leaves in the proof, replaced by themselves
  and one leaf appended.
\<close>

theorem noop_update_keeps_root_witness:
  "getNewRootBooleans (\<lambda>a b. [sum_list a + sum_list b]) [Some [2], Some [1]] [Some [2], Some [1]]
     [Some [7]] 2 [True] [False] [] = Inr ([3], Some [10])
   \<and> getNewRootBits (\<lambda>a b. [sum_list a + sum_list b]) [Some [2], Some [1]] [Some [2], Some [1]]
     [Some [7]] 2 3 2 [] = Inr ([3], Some [10])
   \<and> (\<exists>st. getNewRootBooleans_run (\<lambda>a b. [sum_list a + sum_list b]) [Some [2], Some [1]]
             [Some [2], Some [1]] [Some [7]] 2 [True] [False] [] = Inr st
          \<and> newRoot [Some [2], Some [1]] [Some [2], Some [1]] st = Some [3])
   \<and> (\<exists>st. getNewRootBits_run (\<lambda>a b. [sum_list a + sum_list b]) [Some [2], Some [1]]
             [Some [2], Some [1]] [Some [7]] 2 3 2 [] = Inr st
          \<and> newRoot [Some [2], Some [1]] [Some [2], Some [1]] st = Some [3])"
proof -
  have a: "getNewRootBooleans (\<lambda>a b. [sum_list a + sum_list b]) [Some [2], Some [1]]
             [Some [2], Some [1]] [Some [7]] 2 [True] [False] [] = Inr ([3], Some [10])"
    by code_simp
  have b: "getNewRootBits (\<lambda>a b. [sum_list a + sum_list b]) [Some [2], Some [1]]
             [Some [2], Some [1]] [Some [7]] 2 3 2 [] = Inr ([3], Some [10])"
    by code_simp
  from noop_update_keeps_root
         [where hashFunction = "\<lambda>a b. [sum_list a + sum_list b]"
            and leafs = "[Some [2], Some [1]]" and appendLeafs = "[Some [7]]"
            and elementCount = 2 and flags = "[True]" and skips = "[False]"
            and flagBits = 3 and skipBits = 2 and decommitments = "[]"
            and r = "[3]" and n = "Some [10]"] a b
  show ?thesis by blast
qed

text \<open>
  C5, as the claim states it, fails on the tree of one leaf: replacing the leaf by itself
  and appending nothing, the second pass has nothing to do and the function returns
  \<open>newHashes[0]\<close>, which was never written: \<open>newRoot\<close> is \<open>null\<close>, not the root.
\<close>

theorem noop_update_without_append_returns_null:
  "getNewRootBooleans (\<lambda>a b. [sum_list a + sum_list b]) [Some [1]] [Some [1]] [] 1 [] [] []
     = Inr ([1], None)
   \<and> getNewRootBits (\<lambda>a b. [sum_list a + sum_list b]) [Some [1]] [Some [1]] [] 1 1 1 []
     = Inr ([1], None)"
  by code_simp

section \<open>What generateMultiProof returns on a balanced tree\<close>

lemma log2floor_power: "log2floor (2 ^ k) = k"
proof (induction k)
  case 0
  show ?case by (subst log2floor.simps) simp
next
  case (Suc k)
  have "\<not> (2 :: nat) ^ Suc k < 2" by (simp add: not_less)
  with Suc show ?case by (subst log2floor.simps) simp
qed

lemma js_shl_1: "depth \<le> 30 \<Longrightarrow> js_shl 1 depth = 2 ^ depth"
proof -
  assume d: "depth \<le> 30"
  then have "(2 :: int) ^ depth \<le> 2 ^ 30" by (intro power_increasing) auto
  then have "(2 :: int) ^ depth < 2 ^ 31" by simp
  moreover have "(0 :: int) \<le> 2 ^ depth" by simp
  ultimately have "js_toInt32 (2 ^ depth) = 2 ^ depth"
    by (intro toInt32_id) linarith+
  with d show ?thesis by (simp add: js_shl_def)
qed

lemma js_truthy_at_update:
  "k < length known \<Longrightarrow>
     js_truthy_at (js_set_bool known (int k) v) (int n)
     = (if n = k then v else js_truthy_at known (int n))"
  by (auto simp: js_truthy_at_def js_set_bool_def)

lemma length_js_set_bool:
  "k < length known \<Longrightarrow> length (js_set_bool known (int k) v) = length known"
  by (simp add: js_set_bool_def)

lemma generate_mark_result:
  assumes shl: "js_shl 1 depth = int L"
    and desc: "sorted_wrt (>) indices"
    and range: "\<forall>x \<in> set indices. 0 \<le> x \<and> x < int L"
  shows "i \<le> length indices \<Longrightarrow> length known = 2 * L \<Longrightarrow>
     \<exists>known'. generate_mark tree depth indices i known vals
                = Inr (known', vals @ map (\<lambda>x. js_nth_int tree (int L + x)) (drop i indices))
             \<and> length known' = 2 * L
             \<and> (\<forall>n. js_truthy_at known' (int n)
                      \<longleftrightarrow> js_truthy_at known (int n) \<or> int n - int L \<in> set (drop i indices))"
proof (induction "length indices - i" arbitrary: i known vals)
  case 0
  then show ?case by (subst generate_mark.simps) simp
next
  case (Suc k)
  then have lt: "i < length indices" by simp
  define x where "x = indices ! i"
  have xin: "x \<in> set indices" using lt by (simp add: x_def)
  with range have xr: "0 \<le> x" "x < int L" by auto
  define pos where "pos = nat (int L + x)"
  have pos: "int pos = int L + x" "pos < length known"
    using xr Suc.prems(2) by (simp_all add: pos_def)
  have ordered: "i = 0 \<or> indices ! (i - 1) > indices ! i"
  proof (cases i)
    case 0
    then show ?thesis by simp
  next
    case (Suc j)
    with lt sorted_wrt_nth_less [OF desc, of j i] have "indices ! j > indices ! i"
      by simp
    with Suc show ?thesis by simp
  qed
  define known1 where "known1 = js_set_bool known (int L + x) True"
  have len1: "length known1 = 2 * L"
    using pos Suc.prems(2) length_js_set_bool [of pos known True] by (simp add: known1_def)
  have "Suc i \<le> length indices" "k = length indices - Suc i" using lt Suc.hyps(2) by simp_all
  from Suc.hyps(1) [OF this(2) this(1) len1, of "vals @ [js_nth_int tree (int L + x)]"]
  obtain known' where
    r: "generate_mark tree depth indices (Suc i) known1 (vals @ [js_nth_int tree (int L + x)])
        = Inr (known', (vals @ [js_nth_int tree (int L + x)])
                        @ map (\<lambda>x. js_nth_int tree (int L + x)) (drop (Suc i) indices))"
    and l: "length known' = 2 * L"
    and t: "\<forall>n. js_truthy_at known' (int n)
              \<longleftrightarrow> js_truthy_at known1 (int n) \<or> int n - int L \<in> set (drop (Suc i) indices)"
    by blast
  have d: "drop i indices = x # drop (Suc i) indices"
    using lt by (simp add: x_def Cons_nth_drop_Suc)
  have t1: "js_truthy_at known1 (int n) \<longleftrightarrow> n = pos \<or> js_truthy_at known (int n)" for n
    using js_truthy_at_update [of pos known True n] pos by (simp add: known1_def)
  have "generate_mark tree depth indices i known vals
        = generate_mark tree depth indices (Suc i) known1 (vals @ [js_nth_int tree (int L + x)])"
    using lt ordered by (subst generate_mark.simps) (simp add: shl x_def known1_def)
  moreover have "js_truthy_at known' (int n)
                 \<longleftrightarrow> js_truthy_at known (int n) \<or> int n - int L \<in> set (drop i indices)" for n
  proof -
    have "int n - int L = x \<longleftrightarrow> n = pos" using pos(1) by linarith
    moreover have "int n - int L \<in> set (drop i indices)
                   \<longleftrightarrow> int n - int L = x \<or> int n - int L \<in> set (drop (Suc i) indices)"
      unfolding d by simp
    ultimately show ?thesis using t [rule_format, of n] t1 [of n] by blast
  qed
  ultimately show ?case using r l d by simp
qed

lemma generate_walk_result:
  assumes tree: "length tree = 2 * L"
  shows "i < L \<Longrightarrow> length known = 2 * L \<Longrightarrow>
     (\<forall>n. i < n \<and> n < 2 * L \<longrightarrow> js_truthy_at known (int n) = covered L indices n) \<Longrightarrow>
     snd (generate_walk tree (int i) known decs)
     = decs @ concat (map (decommitmentAt tree L indices) (rev [1 ..< Suc i]))"
proof (induction i arbitrary: known decs)
  case 0
  show ?case by (subst generate_walk.simps) simp
next
  case (Suc i)
  define p where "p = Suc i"
  have p: "0 < p" "p < L" using Suc.prems(1) by (simp_all add: p_def)
  have left: "js_truthy_at known (2 * int p) = covered L indices (2 * p)"
    using Suc.prems(3) [rule_format, of "2 * p"] p by (simp add: p_def)
  have right: "js_truthy_at known (2 * int p + 1) = covered L indices (2 * p + 1)"
    using Suc.prems(3) [rule_format, of "2 * p + 1"] p by (simp add: p_def add.commute)
  have reads: "js_nth_int tree (2 * int p + 1) = tree ! (2 * p + 1)"
              "js_nth_int tree (2 * int p) = tree ! (2 * p)"
    using p tree by (simp_all add: js_nth_int_def js_nth_def nat_add_distrib nat_mult_distrib)
  have cov: "covered L indices p = (covered L indices (2 * p) \<or> covered L indices (2 * p + 1))"
    using p by (subst covered.simps) simp
  define known1 where "known1 = js_set_bool known (int p) (covered L indices p)"
  have pk: "p < length known" using p Suc.prems(2) by simp
  have len1: "length known1 = 2 * L"
    using length_js_set_bool [OF pk] Suc.prems(2) by (simp add: known1_def)
  have inv1: "\<forall>n. i < n \<and> n < 2 * L \<longrightarrow> js_truthy_at known1 (int n) = covered L indices n"
  proof (intro allI impI)
    fix n assume n: "i < n \<and> n < 2 * L"
    show "js_truthy_at known1 (int n) = covered L indices n"
    proof (cases "n = p")
      case True
      then show ?thesis using js_truthy_at_update [OF pk] by (simp add: known1_def)
    next
      case False
      with n have "Suc i < n" by (simp add: p_def)
      with n Suc.prems(3) False js_truthy_at_update [OF pk] show ?thesis
        by (simp add: known1_def)
    qed
  qed
  have pm: "int p - 1 = int i" by (simp add: p_def)
  have step: "generate_walk tree (int p) known decs
              = generate_walk tree (int i) known1 (decs @ decommitmentAt tree L indices p)"
    using p by (subst generate_walk.simps)
      (simp add: Let_def left right reads cov decommitmentAt_def known1_def pm)
  have "i < L" using Suc.prems(1) by simp
  from Suc.IH [OF this len1 inv1, of "decs @ decommitmentAt tree L indices p"] step
  show ?case by (simp add: p_def)
qed

section \<open>The verifier's queue walks the covered nodes\<close>

lemma filter_rev_upt_single:
  assumes "p < b" "P p" "\<forall>q. p < q \<and> q < b \<longrightarrow> \<not> P q"
  shows "filter P (rev [p ..< b]) = [p]"
proof -
  have "[p ..< b] = p # [Suc p ..< b]" using assms(1) by (simp add: upt_conv_Cons)
  moreover have "filter P (rev [Suc p ..< b]) = []"
    using assms(3) by (auto simp: filter_empty_conv)
  ultimately show ?thesis using assms(2) by simp
qed

lemma filter_rev_upt_head:
  "filter P (rev [a ..< b]) = n # rest \<Longrightarrow>
     P n \<and> a \<le> n \<and> n < b \<and> (\<forall>k. n < k \<and> k < b \<longrightarrow> \<not> P k)
     \<and> rest = filter P (rev [a ..< n])"
proof (induction b)
  case 0
  then show ?case by simp
next
  case (Suc b)
  show ?case
  proof (cases "a \<le> b")
    case False
    with Suc.prems show ?thesis by simp
  next
    case True
    then have split: "rev [a ..< Suc b] = b # rev [a ..< b]" by simp
    show ?thesis
    proof (cases "P b")
      case True
      with Suc.prems split \<open>a \<le> b\<close> show ?thesis by auto
    next
      case False
      with Suc.prems split have "filter P (rev [a ..< b]) = n # rest" by simp
      from Suc.IH [OF this] False show ?thesis
        by (auto simp: less_Suc_eq)
    qed
  qed
qed

lemma covered_parent:
  "0 < p \<Longrightarrow> p < L \<Longrightarrow>
     covered L indices p = (covered L indices (2 * p) \<or> covered L indices (2 * p + 1))"
  by (subst covered.simps) simp

lemma covered_leaf: "L \<le> n \<Longrightarrow> covered L indices n = (int n - int L \<in> set indices)"
  by (subst covered.simps) simp

lemma covered_below:
  "covered L indices q \<Longrightarrow> 0 < q \<Longrightarrow> q \<le> m \<Longrightarrow> m < L \<Longrightarrow>
     \<exists>n. m < n \<and> n \<le> 2 * m + 1 \<and> covered L indices n"
proof (induction "m - q" arbitrary: q rule: less_induct)
  case less
  from less.prems have "q < L" by simp
  with less.prems covered_parent [of q L indices]
  obtain c where c: "covered L indices c" "c = 2 * q \<or> c = 2 * q + 1" by auto
  show ?case
  proof (cases "m < c")
    case True
    with c less.prems show ?thesis by auto
  next
    case False
    with c less.prems have "m - c < m - q" "0 < c" "c \<le> m" by auto
    from less.hyps [OF this(1) c(1) this(2) this(3) less.prems(4)] show ?thesis .
  qed
qed

lemma covered_ancestor:
  assumes "covered L indices n" "L = 2 ^ d" "L \<le> n" "n < 2 * L"
  shows "k \<le> d \<Longrightarrow> covered L indices (n div 2 ^ k)"
proof (induction k)
  case 0
  with assms show ?case by simp
next
  case (Suc k)
  define a where "a = n div 2 ^ k"
  define p where "p = n div 2 ^ Suc k"
  have pa: "p = a div 2"
    by (simp add: a_def p_def power_Suc2 div_mult2_eq del: power_Suc)
  from Suc have ca: "covered L indices a" by (simp add: a_def)
  have "(2 :: nat) ^ Suc k \<le> 2 ^ d" using Suc.prems by (intro power_increasing) auto
  with assms(2,3) have "2 ^ Suc k \<le> n" by simp
  then have p0: "0 < p" by (simp add: p_def div_greater_zero_iff)
  have "n < 2 ^ Suc d" using assms(2,4) by simp
  also have "\<dots> = 2 ^ Suc k * 2 ^ (d - k)"
    using Suc.prems by (simp add: power_add [symmetric])
  finally have "p < 2 ^ (d - k)"
    by (simp add: p_def less_mult_imp_div_less mult.commute)
  also have "\<dots> \<le> 2 ^ d" by (intro power_increasing) auto
  finally have pL: "p < L" using assms(2) by simp
  have "a = 2 * p \<or> a = 2 * p + 1" unfolding pa by presburger
  with ca covered_parent [OF p0 pL, of indices] show ?case by (auto simp: p_def)
qed

lemma covered_root:
  assumes "indices \<noteq> []" "\<forall>x \<in> set indices. 0 \<le> x \<and> x < int L" "L = 2 ^ d"
  shows "covered L indices 1"
proof -
  from assms(1) obtain x where x: "x \<in> set indices" by (cases indices) auto
  define n where "n = L + nat x"
  from x assms(2) have n: "L \<le> n" "n < 2 * L" "int n - int L = x" by (auto simp: n_def)
  then have "covered L indices n" using x by (simp add: covered_leaf)
  from covered_ancestor [OF this assms(3) n(1,2), of d]
  have "covered L indices (n div 2 ^ d)" by simp
  moreover have "n div 2 ^ d = 1"
    using n(1,2) assms(3) by (simp add: div_nat_eqI)
  ultimately show ?thesis by simp
qed

lemma decommitments_split:
  assumes "0 < p" "p \<le> m" "\<forall>q. p < q \<and> q \<le> m \<longrightarrow> dec q = []"
  shows "concat (map dec (rev [1 ..< Suc m]))
         = dec p @ concat (map dec (rev [1 ..< Suc (p - 1)]))"
proof -
  from assms(2) obtain k where k: "Suc m = p + k" by (metis le_SucI le_Suc_ex)
  have "1 \<le> p" using assms(1) by simp
  from upt_add_eq_append [OF this, of k] k
  have "[1 ..< Suc m] = [1 ..< p] @ [p ..< Suc m]" by simp
  moreover have "[p ..< Suc m] = p # [Suc p ..< Suc m]"
    using assms(2) by (simp add: upt_conv_Cons)
  ultimately have "[1 ..< Suc m] = [1 ..< p] @ [p] @ [Suc p ..< Suc m]" by simp
  moreover have "concat (map dec (rev [Suc p ..< Suc m])) = []"
    using assms(3) by auto
  ultimately show ?thesis using assms(1) by simp
qed

lemma index_halved_nat:
  "n < 2 ^ 31 \<Longrightarrow> index_halved (Some (int n)) = Some (int (n div 2))"
proof -
  assume "n < 2 ^ 31"
  then have "int n < 2 ^ 31" by (metis of_nat_less_iff of_nat_numeral of_nat_power)
  then have "js_toInt32 (int n) = int n" by (intro toInt32_id) simp_all
  then show ?thesis by (simp add: index_halved_def js_sar_def zdiv_int)
qed

lemma verify_loop_level:
  fixes tree :: "jsval list" and L :: nat and indices :: "int list"
  defines "C \<equiv> covered L indices" and "dec \<equiv> decommitmentAt tree L indices"
  assumes size: "length tree = 2 * L" "2 * L \<le> 2 ^ 31"
    and nodes: "\<forall>n < 2 * L. tree ! n \<noteq> None"
    and internal: "\<forall>p. 0 < p \<and> p < L \<longrightarrow>
                     hashNode keccak (tree ! (2 * p)) (tree ! (2 * p + 1)) = Inr (the (tree ! p))"
    and root: "C 1"
  shows "m < L \<Longrightarrow>
     verify_loop keccak (tree ! 1)
       (map (entryOf tree) (filter C (rev [Suc m ..< 2 * m + 2])))
       (concat (map dec (rev [1 ..< Suc m]))) = Inr True"
proof (induction m rule: less_induct)
  case (less m)
  show ?case
  proof (cases "m = 0")
    case True
    have "[Suc 0 ..< 2] = [1]" by (simp add: upt_conv_Cons)
    then have q: "filter C (rev [Suc m ..< 2 * m + 2]) = [1]" using True root by simp
    from less.prems nodes have "tree ! 1 \<noteq> None" by simp
    then obtain r where "tree ! 1 = Some r" by auto
    then show ?thesis
      unfolding q using True
      by (simp add: entryOf_def verify_loop_Cons buffer_equals_def)
  next
    case False
    then have m0: "0 < m" by simp
    have "\<exists>n. m < n \<and> n \<le> 2 * m + 1 \<and> covered L indices n"
      by (rule covered_below [OF root [unfolded C_def] _ _ less.prems]) (use m0 in simp_all)
    then obtain n0 where n0: "m < n0" "n0 \<le> 2 * m + 1" "C n0" unfolding C_def by auto
    then have "n0 \<in> {Suc m ..< 2 * m + 2}" by simp
    then have "n0 \<in> set (rev [Suc m ..< 2 * m + 2])" by (simp only: set_rev set_upt)
    with n0(3) have "n0 \<in> set (filter C (rev [Suc m ..< 2 * m + 2]))"
      by (simp only: set_filter) blast
    then obtain n Q' where Q: "filter C (rev [Suc m ..< 2 * m + 2]) = n # Q'"
      by (cases "filter C (rev [Suc m ..< 2 * m + 2])") auto
    from filter_rev_upt_head [OF Q]
    have n: "C n" "Suc m \<le> n" "n < 2 * m + 2"
      and above: "\<forall>k. n < k \<and> k < 2 * m + 2 \<longrightarrow> \<not> C k"
      and Q': "Q' = filter C (rev [Suc m ..< n])"
      by auto
    define p where "p = n div 2"
    have np: "n = 2 * p \<or> n = 2 * p + 1" unfolding p_def by presburger
    have p: "0 < p" "p \<le> m" "p < L" using n(2,3) m0 less.prems unfolding p_def by auto
    have n1: "n \<noteq> 1" using n(2) m0 by simp
    have nL: "n < 2 * L" "2 * p + 1 < 2 * L" using p(3) np by auto
    have n31: "n < 2 ^ 31" using nL(1) size(2) by simp
    have Cp: "C p" using n(1) np covered_parent [OF p(1,3), of indices] unfolding C_def by auto
    have nochild: "\<not> C (2 * q) \<and> \<not> C (2 * q + 1)" if "p < q" "q \<le> m" for q
    proof -
      from that np have "n < 2 * q" "2 * q + 1 < 2 * m + 2" by auto
      with above show ?thesis by auto
    qed
    have nocov: "\<not> C q" if "p < q" "q \<le> m" for q
    proof -
      from that p(1) less.prems have "0 < q" "q < L" by auto
      from covered_parent [OF this, of indices] nochild [OF that] show ?thesis
        unfolding C_def by simp
    qed
    have "\<forall>q. p < q \<and> q \<le> m \<longrightarrow> dec q = []"
      using nochild by (auto simp: dec_def decommitmentAt_def C_def)
    from decommitments_split [OF p(1,2) this]
    have decs: "concat (map dec (rev [1 ..< Suc m]))
                = dec p @ concat (map dec (rev [1 ..< Suc (p - 1)]))" .
    define rest where "rest = concat (map dec (rev [1 ..< Suc (p - 1)]))"
    from nodes nL p have "tree ! p \<noteq> None" by simp
    then obtain h where h: "tree ! p = Some h" by auto
    from internal p h
    have hash: "hashNode keccak (tree ! (2 * p)) (tree ! (2 * p + 1)) = Inr h" by simp
    have halved: "index_halved (Some (int n)) = Some (int p)"
      using index_halved_nat [OF n31] by (simp add: p_def)
    define front where "front = filter C (rev [Suc m ..< 2 * p])"
    have next_queue: "filter C (rev [Suc (p - 1) ..< 2 * (p - 1) + 2]) = front @ [p]"
    proof -
      have eq: "Suc (p - 1) = p" "2 * (p - 1) + 2 = 2 * p" using p(1) by simp_all
      show ?thesis
      proof (cases "Suc m \<le> 2 * p")
        case True
        from p(2) have "p \<le> Suc m" by simp
        then obtain j where j: "Suc m = p + j" by (metis le_Suc_ex)
        from True obtain k where k: "2 * p = Suc m + k" by (metis le_Suc_ex)
        have "[p ..< 2 * p] = [p ..< Suc m] @ [Suc m ..< 2 * p]"
          using upt_add_eq_append [of p "Suc m" k] k \<open>p \<le> Suc m\<close> by simp
        moreover have "filter C (rev [p ..< Suc m]) = [p]"
          using p(2) Cp nocov by (intro filter_rev_upt_single) auto
        ultimately show ?thesis unfolding eq front_def by simp
      next
        case False
        then have e: "[Suc m ..< 2 * p] = []" by simp
        have "filter C (rev [p ..< 2 * p]) = [p]"
          using p(1) Cp nocov False by (intro filter_rev_upt_single) auto
        then show ?thesis unfolding eq front_def e by simp
      qed
    qed
    have "p - 1 < m" "p - 1 < L" using p by simp_all
    from less.IH [OF this] next_queue
    have IH: "verify_loop keccak (tree ! 1) (map (entryOf tree) front @ [entryOf tree p]) rest
              = Inr True"
      by (simp add: rest_def)
    have merge: "verify_merge keccak (Some (int n)) (tree ! n) (map (entryOf tree) Q')
                   (dec p @ rest)
                 = Inr (map (entryOf tree) front @ [entryOf tree p], rest)"
    proof (cases "n = 2 * p")
      case True
      have "2 * p < 2 * p + 1" "2 * p + 1 < 2 * m + 2" using p(2) by simp_all
      with above True have nr: "\<not> C (2 * p + 1)" by blast
      with n(1) True have d: "dec p = [tree ! (2 * p + 1)]"
        by (simp add: dec_def decommitmentAt_def C_def)
      have f: "Q' = front" using Q' True by (simp add: front_def)
      show ?thesis
        unfolding verify_merge_def d f
        using True hash halved h
        by (simp add: js_shift_def entryOf_def)
    next
      case False
      with np have odd: "n = 2 * p + 1" by simp
      then have oddi: "\<not> even (int n)" by simp
      have pred: "int n - 1 = int (2 * p)" using odd by simp
      show ?thesis
      proof (cases "C (2 * p) \<and> m < 2 * p")
        case True
        then have "rev [Suc m ..< n] = 2 * p # rev [Suc m ..< 2 * p]" using odd by simp
        with True Q' have f: "Q' = 2 * p # front" by (simp add: front_def)
        from True n(1) odd have d: "dec p = []"
          by (simp add: dec_def decommitmentAt_def C_def)
        show ?thesis
          unfolding verify_merge_def d f
          using oddi pred hash halved h odd
          by (simp add: entryOf_def)
      next
        case False
        have nl: "\<not> C (2 * p)"
        proof (cases "m < 2 * p")
          case True
          with False show ?thesis by simp
        next
          case nm: False
          with n(2) odd have mp: "m = 2 * p" by simp
          with p(1) have "p < m" by simp
          from nocov [OF this] mp show ?thesis by simp
        qed
        have f: "Q' = front"
        proof (cases "Suc m \<le> 2 * p")
          case True
          then have "rev [Suc m ..< n] = 2 * p # rev [Suc m ..< 2 * p]" using odd by simp
          with nl Q' show ?thesis by (simp add: front_def)
        next
          case False
          with odd n(2) have e: "[Suc m ..< n] = []" "[Suc m ..< 2 * p] = []" by simp_all
          show ?thesis unfolding Q' front_def e ..
        qed
        from nl n(1) odd have d: "dec p = [tree ! (2 * p)]"
          by (simp add: dec_def decommitmentAt_def C_def)
        have nosib: "\<not> (map (entryOf tree) front \<noteq> []
                        \<and> fst (hd (map (entryOf tree) front)) = Some (int n - 1))"
        proof
          assume a: "map (entryOf tree) front \<noteq> []
                     \<and> fst (hd (map (entryOf tree) front)) = Some (int n - 1)"
          then have ne: "front \<noteq> []" by simp
          then have "hd front \<in> set front" by simp
          then have "C (hd front)" by (simp add: front_def)
          moreover from a ne have "int (hd front) = int n - 1"
            by (simp add: hd_map entryOf_def)
          then have "hd front = 2 * p" using pred by linarith
          ultimately show False using nl by simp
        qed
        show ?thesis
          unfolding verify_merge_def d f
          using oddi nosib hash halved h odd
          by (auto simp: js_shift_def entryOf_def)
      qed
    qed
    have "verify_loop keccak (tree ! 1) (map (entryOf tree) (n # Q')) (dec p @ rest)
          = verify_loop keccak (tree ! 1) (map (entryOf tree) front @ [entryOf tree p]) rest"
      using n1 merge by (simp add: entryOf_def [of tree n] verify_loop_Cons)
    with IH show ?thesis unfolding Q decs rest_def by simp
  qed
qed

section \<open>The round trip of a balanced-tree multi-proof\<close>

lemma marked_leaves_descending:
  assumes desc: "sorted_wrt (>) indices"
    and range: "\<forall>x \<in> set indices. 0 \<le> x \<and> x < int L"
  shows "map (\<lambda>x. nat (int L + x)) indices = filter (covered L indices) (rev [L ..< 2 * L])"
proof -
  let ?A = "map (\<lambda>x. nat (int L + x)) indices"
  let ?B = "filter (covered L indices) (rev [L ..< 2 * L])"
  have "sorted_wrt (\<lambda>x y. nat (int L + y) < nat (int L + x)) indices"
    using desc range by (intro sorted_wrt_mono_rel [OF _ desc]) auto
  then have A: "sorted_wrt (<) (rev ?A)" by (simp add: sorted_wrt_rev sorted_wrt_map)
  have "sorted_wrt (<) (filter (covered L indices) [L ..< 2 * L])"
    by (intro sorted_wrt_filter) simp
  then have B: "sorted_wrt (<) (rev ?B)" by (simp add: rev_filter)
  have "set ?A = set ?B"
  proof (intro set_eqI iffI)
    fix n assume "n \<in> set ?A"
    then obtain x where x: "x \<in> set indices" "n = nat (int L + x)" by auto
    with range have "L \<le> n" "n < 2 * L" "int n - int L = x" by auto
    with x(1) show "n \<in> set ?B" by (simp add: covered_leaf)
  next
    fix n assume "n \<in> set ?B"
    then have n: "L \<le> n" "n < 2 * L" "covered L indices n" by auto
    then have "int n - int L \<in> set indices" by (simp add: covered_leaf)
    moreover have "n = nat (int L + (int n - int L))" by simp
    ultimately show "n \<in> set ?A" by (metis (no_types, lifting) image_eqI set_map)
  qed
  then have "set (rev ?A) = set (rev ?B)" by simp
  from strict_sorted_equal [OF B A this] show ?thesis by simp
qed

lemma verify_queue_of_leaves:
  assumes "length tree = 2 * L" "\<forall>x \<in> set indices. 0 \<le> x \<and> x < int L"
  shows "verify_queue (int L) indices (map (\<lambda>x. js_nth_int tree (int L + x)) indices)
         = map (entryOf tree) (map (\<lambda>x. nat (int L + x)) indices)"
proof (rule nth_equalityI)
  show "length (verify_queue (int L) indices (map (\<lambda>x. js_nth_int tree (int L + x)) indices))
        = length (map (entryOf tree) (map (\<lambda>x. nat (int L + x)) indices))"
    by (simp add: verify_queue_def)
next
  fix i
  assume "i < length (verify_queue (int L) indices
                        (map (\<lambda>x. js_nth_int tree (int L + x)) indices))"
  then have i: "i < length indices" by (simp add: verify_queue_def)
  then have "indices ! i \<in> set indices" by simp
  with assms(2) have r: "0 \<le> indices ! i" "indices ! i < int L" by auto
  then have "nat (int L + indices ! i) < length tree" using assms(1) by simp
  with r have "js_nth_int tree (int L + indices ! i) = tree ! nat (int L + indices ! i)"
    by (simp add: js_nth_int_def js_nth_def)
  with i r show "verify_queue (int L) indices
                   (map (\<lambda>x. js_nth_int tree (int L + x)) indices) ! i
                 = map (entryOf tree) (map (\<lambda>x. nat (int L + x)) indices) ! i"
    by (simp add: verify_queue_def entryOf_def)
qed

text \<open>
  C1. For a well-formed balanced tree of \<open>2^depth\<close> leaves and a non-empty, strictly
  descending list of leaf indices below the leaf count, \<open>generateMultiProof\<close> returns a
  proof, and \<open>verifyMultiProof\<close> on that proof's mixed root, root, leaf count, indices,
  values and decommitments returns \<open>true\<close>.
\<close>

theorem multiProof_round_trip:
  assumes wf: "wellFormedTree keccak depth tree"
    and ne: "indices \<noteq> []"
    and desc: "sorted_wrt (>) indices"
    and range: "\<forall>x \<in> set indices. 0 \<le> x \<and> x < 2 ^ depth"
  shows "\<exists>p. generateMultiProof tree indices = Inr p
            \<and> verifyMultiProof keccak (mp_mixedRoot p) (mp_root p) (mp_leafCount p)
                 (mp_indices p) (mp_values p) (mp_decommitments p) = Inr True"
proof -
  define L :: nat where "L = 2 ^ depth"
  have L0: "0 < L" by (simp add: L_def)
  have iL: "int L = 2 ^ depth" by (simp add: L_def)
  from wf have len: "length tree = 2 * L" and small: "length tree < 2 ^ 32"
    and all: "list_all (\<lambda>node. node \<noteq> None) tree"
    and mixed: "validateMixedRoot keccak (tree ! 0) (tree ! 1) (2 ^ depth) = Inr True"
    and inner: "\<forall>i \<in> {1 ..< 2 ^ depth}.
                  hashNode keccak (tree ! (2 * i)) (tree ! (2 * i + 1)) = Inr (the (tree ! i))"
    by (simp_all add: wellFormedTree_def L_def)
  have below: "(2 :: nat) ^ Suc depth < 2 ^ 32" using len small by (simp add: L_def)
  have d31: "Suc depth < 32" by (rule power_less_imp_less_exp [OF _ below]) simp
  then have d30: "depth \<le> 30" by simp
  have "(2 :: nat) ^ Suc depth \<le> 2 ^ 31" using d31 by (intro power_increasing) auto
  then have size31: "2 * L \<le> 2 ^ 31" by (simp add: L_def)
  have depth: "getDepthFromTree tree = depth"
    using log2floor_power [of "Suc depth"] len by (simp add: getDepthFromTree_def L_def)
  have shl: "js_shl 1 depth = int L" using js_shl_1 [OF d30] iL by simp
  have range': "\<forall>x \<in> set indices. 0 \<le> x \<and> x < int L" using range iL by simp
  have nodes: "\<forall>n < 2 * L. tree ! n \<noteq> None"
    using all len by (simp add: list_all_length)
  have internal: "\<forall>p. 0 < p \<and> p < L \<longrightarrow>
                    hashNode keccak (tree ! (2 * p)) (tree ! (2 * p + 1)) = Inr (the (tree ! p))"
    using inner by (auto simp: L_def)
  have root: "covered L indices 1"
    by (rule covered_root [OF ne range']) (simp add: L_def)
  define vals where "vals = map (\<lambda>x. js_nth_int tree (int L + x)) indices"
  define decs where "decs = concat (map (decommitmentAt tree L indices) (rev [1 ..< Suc (L - 1)]))"
  from generate_mark_result [OF shl desc range', of 0 "replicate (2 * L) False" tree "[]"]
  obtain known0 where
    mark: "generate_mark tree depth indices 0 (replicate (2 * L) False) [] = Inr (known0, vals)"
    and len0: "length known0 = 2 * L"
    and truthy: "\<forall>n. js_truthy_at known0 (int n)
                   \<longleftrightarrow> js_truthy_at (replicate (2 * L) False) (int n)
                       \<or> int n - int L \<in> set (drop 0 indices)"
    by (auto simp: vals_def)
  have inv: "\<forall>n. L - 1 < n \<and> n < 2 * L \<longrightarrow> js_truthy_at known0 (int n) = covered L indices n"
  proof (intro allI impI)
    fix n assume n: "L - 1 < n \<and> n < 2 * L"
    then have "L \<le> n" using L0 by linarith
    then have "covered L indices n = (int n - int L \<in> set indices)" by (rule covered_leaf)
    moreover have "\<not> js_truthy_at (replicate (2 * L) False) (int n)"
      by (simp add: js_truthy_at_def)
    ultimately show "js_truthy_at known0 (int n) = covered L indices n"
      using truthy by simp
  qed
  have "L - 1 < L" using L0 by simp
  from generate_walk_result [OF len this len0 inv, of "[]"]
  have walk0: "snd (generate_walk tree (int (L - 1)) known0 []) = decs"
    by (simp add: decs_def)
  have "int (L - 1) = int L - 1" using L0 by (cases L) simp_all
  with walk0 have walk: "snd (generate_walk tree (int L - 1) known0 []) = decs"
    by (simp only:)
  have reads: "js_nth tree 0 = tree ! 0" "js_nth tree 1 = tree ! 1"
    using len L0 by (simp_all add: js_nth_def)
  define p where "p = \<lparr> mp_mixedRoot = tree ! 0, mp_root = tree ! 1, mp_leafCount = int L,
                         mp_indices = indices, mp_values = vals, mp_decommitments = decs \<rparr>"
  have gen: "generateMultiProof tree indices = Inr p"
    unfolding generateMultiProof_def depth Let_def shl
    using mark walk reads
    by (simp add: case_prod_beta p_def nat_mult_distrib)
  have queue: "verify_queue (int L) indices vals
               = map (entryOf tree) (filter (covered L indices) (rev [Suc (L - 1) ..< 2 * (L - 1) + 2]))"
  proof -
    have "Suc (L - 1) = L" "2 * (L - 1) + 2 = 2 * L" using L0 by simp_all
    then show ?thesis
      using verify_queue_of_leaves [OF len range'] marked_leaves_descending [OF desc range']
      by (simp add: vals_def)
  qed
  have "verify_loop keccak (tree ! 1) (verify_queue (int L) indices vals) decs = Inr True"
    unfolding queue decs_def
    by (rule verify_loop_level [OF len size31 nodes internal root]) (use L0 in simp)
  then have "verifyMultiProof keccak (tree ! 0) (tree ! 1) (int L) indices vals decs = Inr True"
    using mixed iL by (simp add: verifyMultiProof_def)
  with gen show ?thesis by (auto simp: p_def)
qed

text \<open>
  The theorem at the tree of the four leaves \<open>[1]\<close>, \<open>[2]\<close>, \<open>[3]\<close>, \<open>[4]\<close> under the hash
  that sums the bytes of its input, for the leaves 2 and 0.
\<close>

theorem multiProof_round_trip_witness:
  "validateMixedRoot (\<lambda>b. [sum_list b]) (Some [14]) (Some [10]) (2 ^ 2) = Inr True
   \<and> (\<exists>p. generateMultiProof
              [Some [14], Some [10], Some [3], Some [7], Some [1], Some [2], Some [3], Some [4]]
              [2, 0] = Inr p
          \<and> verifyMultiProof (\<lambda>b. [sum_list b]) (mp_mixedRoot p) (mp_root p) (mp_leafCount p)
               (mp_indices p) (mp_values p) (mp_decommitments p) = Inr True)"
proof -
  have mixed: "validateMixedRoot (\<lambda>b. [sum_list b]) (Some [14]) (Some [10]) (2 ^ 2) = Inr True"
    by code_simp
  have inner: "\<forall>i \<in> {1 ..< 2 ^ 2}.
      hashNode (\<lambda>b. [sum_list b])
        ([Some [14], Some [10], Some [3], Some [7], Some [1], Some [2], Some [3], Some [4]]
           ! (2 * i))
        ([Some [14], Some [10], Some [3], Some [7], Some [1], Some [2], Some [3], Some [4]]
           ! (2 * i + 1))
      = Inr (the ([Some [14], Some [10], Some [3], Some [7], Some [1], Some [2], Some [3],
                   Some [4 :: 8 word]] ! i))"
    by code_simp
  have wf: "wellFormedTree (\<lambda>b. [sum_list b]) 2
     [Some [14], Some [10], Some [3], Some [7], Some [1], Some [2], Some [3], Some [4]]"
    unfolding wellFormedTree_def using mixed inner by simp
  have h: "[2, 0 :: int] \<noteq> []" "sorted_wrt (>) [2, 0 :: int]"
          "\<forall>x \<in> set [2, 0 :: int]. 0 \<le> x \<and> x < 2 ^ 2"
    by simp_all
  from multiProof_round_trip [OF wf h] mixed show ?thesis by blast
qed

end
